theory Spec2Isabelle
  imports Complex_Main "HOL-Library.Word"
begin

unbundle bit_operations_syntax

section \<open>Errors\<close>

text \<open>
  Every \<^verbatim>\<open>throw new Error(...)\<close> of the asset module is one constructor, named after its
  message. \<open>InvalidNumber\<close> and \<open>DecodeUnderflow\<close> are the failures of the integer and
  decoder classes the module calls.
\<close>

datatype error =
    InvalidAssetString            \<comment> \<open>'Invalid asset string'\<close>
  | InvalidSymbolString           \<comment> \<open>'Invalid symbol string'\<close>
  | PrecisionTooLarge             \<comment> \<open>'Invalid asset symbol, precision too large'\<close>
  | InvalidSymbolName             \<comment> \<open>'Invalid asset symbol, name must be uppercase A-Z'\<close>
  | ConversionLoosesPrecision     \<comment> \<open>'Conversion looses precision'\<close>
  | InvalidNumber
  | DecodeUnderflow

section \<open>Big numbers and bytes\<close>

text \<open>
  A \<^verbatim>\<open>BN\<close> of bn.js that holds a non-negative integer is a \<open>nat\<close>. An array of numbers
  is a \<open>nat list\<close>; an entry is read through the bitwise operators, so only its 32 bits
  matter (see \<open>ToInt32\<close> below), and a byte array has entries below 256.

  \<open>le_value\<close> is the integer whose little-endian bytes are the list: entry \<open>i\<close> has weight
  \<open>256 ^ i\<close>.
\<close>

fun le_value :: "nat list \<Rightarrow> nat" where
  "le_value [] = 0"
| "le_value (b # bs) = b + 256 * le_value bs"

text \<open>
  \<^verbatim>\<open>new BN(array, 'le')\<close> is \<^verbatim>\<open>_initArray\<close> of bn.js (not among the sources). A number is
  kept in words of 26 bits, \<^verbatim>\<open>this.length = Math.ceil(number.length / 3)\<close> of them, all
  zero at first. The loop takes the entries three at a time,

  \<^verbatim>\<open>w = number[i] | (number[i + 1] << 8) | (number[i + 2] << 16);\<close>
  \<^verbatim>\<open>this.words[j] |= (w << off) & 0x3ffffff;\<close>
  \<^verbatim>\<open>this.words[j + 1] = (w >>> (26 - off)) & 0x3ffffff;\<close>
  \<^verbatim>\<open>off += 24; if (off >= 26) { off -= 26; j++; }\<close>

  where an entry past the end is \<^verbatim>\<open>undefined\<close> and reads as \<open>0\<close>. \<open>w\<close> is a 32-bit
  pattern, held here as the natural number below \<open>2 ^ 32\<close> with these bits. The value of
  the number is that of its first \<^verbatim>\<open>this.length\<close> words; a word written beyond them is
  not part of it. An empty array gives zero.
\<close>

definition BN_entry :: "nat list \<Rightarrow> nat \<Rightarrow> nat" where
  "BN_entry number i = (if i < length number then take_bit 32 (number ! i) else 0)"

definition BN_group :: "nat list \<Rightarrow> nat \<Rightarrow> nat" where
  "BN_group number i =
     take_bit 32 (BN_entry number i OR push_bit 8 (BN_entry number (i + 1))
                    OR push_bit 16 (BN_entry number (i + 2)))"

function BN_initArray_le :: "nat list \<Rightarrow> nat \<Rightarrow> nat \<Rightarrow> nat \<Rightarrow> (nat \<Rightarrow> nat) \<Rightarrow> (nat \<Rightarrow> nat)" where
  "BN_initArray_le number i j off words =
     (if i < length number then
        let w = BN_group number i;
            words1 = words(j := words j OR take_bit 26 (push_bit off w));
            words2 = words1(j + 1 := take_bit 26 (drop_bit (26 - off) w))
        in if 26 \<le> off + 24
           then BN_initArray_le number (i + 3) (j + 1) (off + 24 - 26) words2
           else BN_initArray_le number (i + 3) j (off + 24) words2
      else words)"
  by pat_completeness auto
termination
  by (relation "measure (\<lambda>(number, i, j, off, words). length number - i)") auto

declare BN_initArray_le.simps [simp del]

definition BN_from_le :: "nat list \<Rightarrow> nat" where
  "BN_from_le number =
     (if number = [] then 0
      else
        let words = BN_initArray_le number 0 0 0 (\<lambda>k. 0)
        in sum_list (map (\<lambda>k. words k * 2 ^ (26 * k)) [0..<(length number + 2) div 3]))"

text \<open>The bytes of a positive integer, lowest first, up to its highest non-zero byte.\<close>

fun le_bytes :: "nat \<Rightarrow> nat list" where
  "le_bytes n = (if n = 0 then [] else (n mod 256) # le_bytes (n div 256))"

declare le_bytes.simps [simp del]

text \<open>
  \<^verbatim>\<open>bn.toArray('be')\<close>: the shortest big-endian byte array of the value, and the one
  byte \<open>0\<close> for zero (bn.js takes \<^verbatim>\<open>Math.max(1, byteLength)\<close> bytes).
\<close>

definition BN_toArray_be :: "nat \<Rightarrow> nat list" where
  "BN_toArray_be n = (if n = 0 then [0] else rev (le_bytes n))"

type_synonym UInt64 = "64 word"
type_synonym Int64 = "64 word"

text \<open>
  Modelled from the spec: \<^verbatim>\<open>UInt64.from(bn)\<close> of the integer module (not among the
  sources); an unsigned 64-bit integer holding the value of \<open>bn\<close>. Every \<open>bn\<close> it is
  given here is below \<open>2 ^ 64\<close>: it is built from eight bytes, from at most seven
  character codes, or from a number and at most seven character codes (lemma
  \<open>BN_from_le_fits\<close>).
\<close>

definition UInt64_from_BN :: "nat \<Rightarrow> UInt64" where
  "UInt64_from_BN n = word_of_nat n"

section \<open>Numbers\<close>

text \<open>
  A JavaScript \<^verbatim>\<open>number\<close>: a finite double is the rational it denotes (\<open>-0\<close> is
  \<open>0\<close>), beside the two infinities and \<open>NaN\<close>.
\<close>

datatype number = Num rat | Infinity | NegInfinity | NaN

text \<open>
  The 32 bits that the bitwise operators of JavaScript read from a number (\<^verbatim>\<open>ToInt32\<close>, as
  a bit pattern): the number is truncated towards zero and taken modulo \<open>2 ^ 32\<close>;
  \<open>NaN\<close> and the infinities give \<open>0\<close>. bn.js reads every entry of an array through
  \<^verbatim>\<open>|\<close> and \<^verbatim>\<open><<\<close>.
\<close>

definition truncate_rat :: "rat \<Rightarrow> int" where
  "truncate_rat r = (if 0 \<le> r then \<lfloor>r\<rfloor> else \<lceil>r\<rceil>)"

fun ToInt32 :: "number \<Rightarrow> nat" where
  "ToInt32 (Num r) = nat (truncate_rat r mod 2 ^ 32)"
| "ToInt32 Infinity = 0"
| "ToInt32 NegInfinity = 0"
| "ToInt32 NaN = 0"

section \<open>Floating point\<close>

text \<open>
  A double holds 53 significant bits. \<open>round_double\<close> takes a rational to the nearest
  double, ties to the even significand: the result of every arithmetic operation of
  JavaScript is its exact result rounded this way.
\<close>

fun bit_length :: "nat \<Rightarrow> nat" where
  "bit_length n = (if n = 0 then 0 else Suc (bit_length (n div 2)))"

declare bit_length.simps [simp del]

definition pow2 :: "int \<Rightarrow> rat" where
  "pow2 e = (if 0 \<le> e then 2 ^ nat e else 1 / 2 ^ nat (- e))"

text \<open>The greatest \<open>e\<close> with \<open>2 ^ e \<le> x\<close>, for a positive \<open>x\<close>.\<close>

definition binade :: "rat \<Rightarrow> int" where
  "binade x =
     (case quotient_of x of (a, b) \<Rightarrow>
        let e = int (bit_length (nat a)) - int (bit_length (nat b))
        in if pow2 e \<le> x then e else e - 1)"

definition round_half_even :: "rat \<Rightarrow> int" where
  "round_half_even r =
     (let f = \<lfloor>r\<rfloor>; d = r - of_int f
      in if d < 1 / 2 then f else if 1 / 2 < d then f + 1 else if even f then f else f + 1)"

definition round_double :: "rat \<Rightarrow> number" where
  "round_double x =
     (if x = 0 then Num 0
      else
        let m = \<bar>x\<bar>;
            q = pow2 (max (binade m - 52) (- 1074));
            y = of_int (round_half_even (m / q)) * q
        in if 2 ^ 1024 \<le> y then (if x < 0 then NegInfinity else Infinity)
           else Num (if x < 0 then - y else y))"

section \<open>Packing and unpacking a symbol\<close>

text \<open>\<^verbatim>\<open>toRawSymbolCode\<close>: the character codes of the first \<open>min (length name) 7\<close> characters.\<close>

definition toRawSymbolCode :: "string \<Rightarrow> nat list" where
  "toRawSymbolCode name = map of_char (take (min (length name) 7) name)"

text \<open>\<^verbatim>\<open>toRawSymbol\<close>: the precision is put in front of the codes, and the array read little-endian.\<close>

definition toRawSymbol :: "string \<Rightarrow> number \<Rightarrow> UInt64" where
  "toRawSymbol name precision =
     UInt64_from_BN (BN_from_le (ToInt32 precision # toRawSymbolCode name))"

text \<open>\<^verbatim>\<open>charsToSymbolName\<close>: every code becomes a character, and the order is reversed.\<close>

definition charsToSymbolName :: "nat list \<Rightarrow> string" where
  "charsToSymbolName chars = rev (map char_of chars)"

text \<open>\<^verbatim>\<open>toSymbolName\<close>: \<^verbatim>\<open>slice(0, -1)\<close> drops the last (lowest) byte.\<close>

definition toSymbolName :: "UInt64 \<Rightarrow> string" where
  "toSymbolName rawSymbol = charsToSymbolName (butlast (BN_toArray_be (unat rawSymbol)))"

definition toSymbolPrecision :: "UInt64 \<Rightarrow> nat" where
  "toSymbolPrecision rawSymbol = unat (rawSymbol AND 0xff)"

section \<open>Symbol\<close>

text \<open>\<^verbatim>\<open>/^[A-Z]{1,7}$/\<close>\<close>

definition symbolNamePattern :: "string \<Rightarrow> bool" where
  "symbolNamePattern s \<longleftrightarrow>
     1 \<le> length s \<and> length s \<le> 7 \<and> list_all (\<lambda>c. 65 \<le> (of_char c :: nat) \<and> (of_char c :: nat) \<le> 90) s"

definition maxPrecision :: nat where
  "maxPrecision = 18"

record Symbol =
  sym_value :: UInt64

text \<open>The constructor: the precision is checked first, then the name.\<close>

definition new_Symbol :: "UInt64 \<Rightarrow> error + Symbol" where
  "new_Symbol v =
     (if toSymbolPrecision v > maxPrecision then Inl PrecisionTooLarge
      else if \<not> symbolNamePattern (toSymbolName v) then Inl InvalidSymbolName
      else Inr \<lparr>sym_value = v\<rparr>)"

definition Symbol_fromParts :: "string \<Rightarrow> number \<Rightarrow> error + Symbol" where
  "Symbol_fromParts name precision = new_Symbol (toRawSymbol name precision)"

definition Symbol_name :: "Symbol \<Rightarrow> string" where
  "Symbol_name s = toSymbolName (sym_value s)"

definition Symbol_precision :: "Symbol \<Rightarrow> nat" where
  "Symbol_precision s = toSymbolPrecision (sym_value s)"

section \<open>Strings\<close>

text \<open>
  A string is a list of 8-bit characters; \<^verbatim>\<open>charCodeAt\<close> is \<open>of_char\<close> and
  \<^verbatim>\<open>String.fromCharCode\<close> on a byte is \<open>char_of\<close>.

  \<^verbatim>\<open>str.split(sep)\<close> for a separator of one character: the pieces between the
  separators, in order; a string without the separator is its only piece.
\<close>

fun split_on :: "char \<Rightarrow> string \<Rightarrow> string list" where
  "split_on sep [] = [[]]"
| "split_on sep (c # cs) =
     (if c = sep then [] # split_on sep cs
      else (case split_on sep cs of
              [] \<Rightarrow> [[c]]
            | p # ps \<Rightarrow> (c # p) # ps))"

text \<open>\<^verbatim>\<open>str.replace(c, '')\<close> with a string pattern: the first occurrence only is removed.\<close>

fun remove_first :: "char \<Rightarrow> string \<Rightarrow> string" where
  "remove_first c [] = []"
| "remove_first c (x # xs) = (if x = c then xs else x # remove_first c xs)"

text \<open>\<^verbatim>\<open>parts[i] || ''\<close>: a missing piece and an empty piece both give the empty string.\<close>

definition nth_or_empty :: "string list \<Rightarrow> nat \<Rightarrow> string" where
  "nth_or_empty parts i = (if i < length parts then parts ! i else [])"

text \<open>The decimal digits of a natural number, as JavaScript prints a non-negative integer.\<close>

definition digit_char :: "nat \<Rightarrow> char" where
  "digit_char d = char_of (48 + d)"

fun digits_of :: "nat \<Rightarrow> string" where
  "digits_of n = (if n < 10 then [digit_char n] else digits_of (n div 10) @ [digit_char (n mod 10)])"

declare digits_of.simps [simp del]

text \<open>The value of a digit string in a radix, most significant digit first.\<close>

definition digit_value :: "char \<Rightarrow> nat" where
  "digit_value c =
     (let k = (of_char c :: nat) in
      if 48 \<le> k \<and> k \<le> 57 then k - 48
      else if 97 \<le> k \<and> k \<le> 122 then k - 87
      else if 65 \<le> k \<and> k \<le> 90 then k - 55
      else 36)"

definition is_digit :: "nat \<Rightarrow> char \<Rightarrow> bool" where
  "is_digit radix c \<longleftrightarrow> digit_value c < radix"

definition digits_value :: "nat \<Rightarrow> string \<Rightarrow> nat" where
  "digits_value radix ds = foldl (\<lambda>acc c. acc * radix + digit_value c) 0 ds"

text \<open>
  \<^verbatim>\<open>Number.parseInt(str)\<close> with no radix: leading white space is skipped, a sign is
  read, a prefix \<^verbatim>\<open>0x\<close> or \<^verbatim>\<open>0X\<close> selects radix 16, and the longest run of digits is
  the value; no digit at all gives \<open>NaN\<close>. The result is a number: the integer that was
  read, rounded to a double (exact up to \<open>2 ^ 53\<close>).
\<close>

definition is_whitespace :: "char \<Rightarrow> bool" where
  "is_whitespace c \<longleftrightarrow> (of_char c :: nat) \<in> {9, 10, 11, 12, 13, 32, 160}"

definition parseInt :: "string \<Rightarrow> number" where
  "parseInt str =
     (let s = dropWhile is_whitespace str;
          negative = (take 1 s = ''-'');
          s1 = (if take 1 s = ''-'' \<or> take 1 s = ''+'' then drop 1 s else s);
          hex = (take 2 s1 = ''0x'' \<or> take 2 s1 = ''0X'');
          s2 = (if hex then drop 2 s1 else s1);
          radix = (if hex then 16 else 10);
          z = takeWhile (is_digit radix) s2
      in if z = [] then NaN
         else round_double (of_int ((if negative then - 1 else 1) * int (digits_value radix z))))"

section \<open>Symbol: the other constructors and the getters\<close>

datatype SymbolType = SymbolObj Symbol | SymbolRaw UInt64 | SymbolStr string

text \<open>\<^verbatim>\<open>Symbol.from\<close>: an instance is returned as it is; an integer goes to the constructor; a string is split at the commas.\<close>

fun Symbol_from :: "SymbolType \<Rightarrow> error + Symbol" where
  "Symbol_from (SymbolObj s) = Inr s"
| "Symbol_from (SymbolRaw v) = new_Symbol v"
| "Symbol_from (SymbolStr str) =
     (let parts = split_on CHR '','' str in
      if length parts \<noteq> 2 then Inl InvalidSymbolString
      else Symbol_fromParts (parts ! 1) (parseInt (parts ! 0)))"

definition Symbol_toString :: "Symbol \<Rightarrow> string" where
  "Symbol_toString s = digits_of (Symbol_precision s) @ '','' @ Symbol_name s"

definition Symbol_equals :: "Symbol \<Rightarrow> SymbolType \<Rightarrow> error + bool" where
  "Symbol_equals s other =
     (case Symbol_from other of
        Inl e \<Rightarrow> Inl e
      | Inr t \<Rightarrow> Inr (sym_value s = sym_value t))"

section \<open>The wire format\<close>

text \<open>
  \<^verbatim>\<open>ABIEncoder\<close>, \<^verbatim>\<open>ABIDecoder\<close> and the integer classes are not among the sources. The
  encoder is the list of bytes written so far, the decoder the list of bytes still to
  read.
\<close>

type_synonym byte = "8 word"

text \<open>
  Modelled from the spec: the eight bytes of an unsigned 64-bit integer on the wire
  (\<^verbatim>\<open>UInt64.toABI\<close> of the integer module), lowest byte first.
\<close>

definition UInt64_to_bytes :: "UInt64 \<Rightarrow> byte list" where
  "UInt64_to_bytes v = map (\<lambda>i. ucast (drop_bit (8 * i) v)) [0..<8]"

text \<open>
  Modelled from the spec: \<^verbatim>\<open>UInt64.toABI(encoder)\<close> of the integer module; the eight
  bytes are written after what the encoder holds.
\<close>

definition UInt64_toABI :: "UInt64 \<Rightarrow> byte list \<Rightarrow> byte list" where
  "UInt64_toABI v encoder = encoder @ UInt64_to_bytes v"

text \<open>
  Modelled from the spec: \<^verbatim>\<open>UInt64.fromABI(decoder)\<close> of the integer module; the next
  eight bytes are read as an integer, lowest byte first, and with fewer than eight bytes
  left the decoder fails.
\<close>

definition UInt64_fromABI :: "byte list \<Rightarrow> error + (UInt64 \<times> byte list)" where
  "UInt64_fromABI decoder =
     (if length decoder < 8 then Inl DecodeUnderflow
      else Inr (UInt64_from_BN (BN_from_le (map unat (take 8 decoder))), drop 8 decoder))"

definition Symbol_toABI :: "Symbol \<Rightarrow> byte list \<Rightarrow> byte list" where
  "Symbol_toABI s encoder = UInt64_toABI (sym_value s) encoder"

definition Symbol_fromABI :: "byte list \<Rightarrow> error + (Symbol \<times> byte list)" where
  "Symbol_fromABI decoder =
     (case UInt64_fromABI decoder of
        Inl e \<Rightarrow> Inl e
      | Inr (v, rest) \<Rightarrow>
          (case new_Symbol v of
             Inl e \<Rightarrow> Inl e
           | Inr s \<Rightarrow> Inr (s, rest)))"

section \<open>SymbolCode\<close>

record SymbolCode =
  code_value :: UInt64

text \<open>
  \<^verbatim>\<open>SymbolCode.from\<close>: an instance is returned as it is, a string is packed from its
  character codes, an integer is wrapped. (A \<^verbatim>\<open>number\<close> argument goes to the integer
  module and is left out.)
\<close>

datatype SymbolCodeType = SymbolCodeObj SymbolCode | SymbolCodeRaw UInt64 | SymbolCodeStr string

fun SymbolCode_from :: "SymbolCodeType \<Rightarrow> SymbolCode" where
  "SymbolCode_from (SymbolCodeObj c) = c"
| "SymbolCode_from (SymbolCodeRaw v) = \<lparr>code_value = v\<rparr>"
| "SymbolCode_from (SymbolCodeStr str) =
     \<lparr>code_value = UInt64_from_BN (BN_from_le (toRawSymbolCode str))\<rparr>"

definition SymbolCode_toString :: "SymbolCode \<Rightarrow> string" where
  "SymbolCode_toString c = charsToSymbolName (BN_toArray_be (unat (code_value c)))"

text \<open>A list of bytes without the zero entries at its end: what \<open>le_bytes\<close> keeps of it.\<close>

fun strip_zeros :: "nat list \<Rightarrow> nat list" where
  "strip_zeros [] = []"
| "strip_zeros (b # bs) = (let r = strip_zeros bs in if r = [] \<and> b = 0 then [] else b # r)"

text \<open>
  The ticker that a name is packed to: its first seven characters, without the NUL
  characters at their end (zero bytes at the top of the integer are not seen again).
\<close>

definition ticker_of :: "string \<Rightarrow> string" where
  "ticker_of name = map char_of (strip_zeros (map of_char (take 7 name)))"

section \<open>The code getter, on a store of big numbers\<close>

text \<open>
  \<^verbatim>\<open>iushrn\<close> of bn.js shifts the number it is called on, in place; \<^verbatim>\<open>clone\<close> makes a
  new number. To see which number the getter \<^verbatim>\<open>code\<close> shifts, the \<^verbatim>\<open>BN\<close> objects live
  in a store: the object with reference \<open>r\<close> holds the integer \<open>h ! r\<close>, and a new
  object is added at the end.
\<close>

type_synonym ref = nat
type_synonym store = "nat list"

definition BN_clone :: "ref \<Rightarrow> store \<Rightarrow> ref \<times> store" where
  "BN_clone r h = (length h, h @ [h ! r])"

definition BN_iushrn :: "nat \<Rightarrow> ref \<Rightarrow> store \<Rightarrow> ref \<times> store" where
  "BN_iushrn bits r h = (r, h[r := h ! r div 2 ^ bits])"

text \<open>
  \<^verbatim>\<open>get code()\<close>, for the symbol whose \<^verbatim>\<open>value.value\<close> is the object \<open>this\<close>: the
  reference of the number that the new \<^verbatim>\<open>SymbolCode\<close> holds, and the store afterwards.
\<close>

definition Symbol_code :: "ref \<Rightarrow> store \<Rightarrow> ref \<times> store" where
  "Symbol_code this h = (case BN_clone this h of (c, h1) \<Rightarrow> BN_iushrn 8 c h1)"

text \<open>The symbol and the symbol code whose number is the object \<open>r\<close> of the store \<open>h\<close>.\<close>

definition Symbol_at :: "store \<Rightarrow> ref \<Rightarrow> Symbol" where
  "Symbol_at h r = \<lparr>sym_value = UInt64_from_BN (h ! r)\<rparr>"

definition SymbolCode_at :: "store \<Rightarrow> ref \<Rightarrow> SymbolCode" where
  "SymbolCode_at h r = \<lparr>code_value = UInt64_from_BN (h ! r)\<rparr>"

section \<open>Asset\<close>

text \<open>
  \<^verbatim>\<open>Int64\<close>, the signed 64-bit integer of the integer module, is not among the sources.

  Modelled from the spec: \<^verbatim>\<open>Int64.toString\<close> of the integer module; the decimal digits
  of the value, after a minus sign when it is negative.
\<close>

definition Int64_toString :: "Int64 \<Rightarrow> string" where
  "Int64_toString u =
     (if sint u < 0 then ''-'' @ digits_of (nat (- sint u)) else digits_of (nat (sint u)))"

text \<open>
  Modelled from the spec: the exact width of \<^verbatim>\<open>Int64\<close>; an integer outside the signed
  64-bit range is refused.
\<close>

definition Int64_from_int :: "int \<Rightarrow> error + Int64" where
  "Int64_from_int v = (if - (2 ^ 63) \<le> v \<and> v < 2 ^ 63 then Inr (word_of_int v) else Inl InvalidNumber)"

text \<open>
  Modelled from the spec: \<^verbatim>\<open>Int64.from\<close> of a string, of the integer module; an optional
  minus sign and decimal digits (zeros in front allowed) are read as their value, any
  other string is refused.
\<close>

definition Int64_from_string :: "string \<Rightarrow> error + Int64" where
  "Int64_from_string str =
     (let negative = (take 1 str = ''-'');
          ds = (if negative then drop 1 str else str)
      in if ds = [] \<or> \<not> list_all (is_digit 10) ds then Inl InvalidNumber
         else Int64_from_int ((if negative then - 1 else 1) * int (digits_value 10 ds)))"

text \<open>
  Modelled from the spec: \<^verbatim>\<open>Int64.from\<close> of a number, of the integer module; the
  integer part of a finite number is taken, \<open>NaN\<close> and the infinities are refused.
\<close>

fun Int64_from_number :: "number \<Rightarrow> error + Int64" where
  "Int64_from_number (Num r) = Int64_from_int (truncate_rat r)"
| "Int64_from_number Infinity = Inl InvalidNumber"
| "Int64_from_number NegInfinity = Inl InvalidNumber"
| "Int64_from_number NaN = Inl InvalidNumber"

record Asset =
  units :: Int64
  symbol :: Symbol

datatype AssetType = AssetObj Asset | AssetStr string

text \<open>
  \<^verbatim>\<open>Asset.from\<close>. The symbol is built before the units are read, so that an error of
  the symbol comes first.
\<close>

fun Asset_from :: "AssetType \<Rightarrow> error + Asset" where
  "Asset_from (AssetObj a) = Inr a"
| "Asset_from (AssetStr str) =
     (let parts = split_on CHR '' '' str in
      if length parts \<noteq> 2 then Inl InvalidAssetString
      else
        let amount = remove_first CHR ''.'' (parts ! 0);
            precision = length (nth_or_empty (split_on CHR ''.'' (parts ! 0)) 1)
        in (case Symbol_fromParts (parts ! 1) (Num (of_nat precision)) of
              Inl e \<Rightarrow> Inl e
            | Inr sy \<Rightarrow>
                (case Int64_from_string amount of
                   Inl e \<Rightarrow> Inl e
                 | Inr u \<Rightarrow> Inr \<lparr>units = u, symbol = sy\<rparr>)))"

definition Asset_equals :: "Asset \<Rightarrow> AssetType \<Rightarrow> error + bool" where
  "Asset_equals this other =
     (case Asset_from other of
        Inl e \<Rightarrow> Inl e
      | Inr that \<Rightarrow>
          Inr (sym_value (symbol this) = sym_value (symbol that) \<and> units this = units that))"

text \<open>\<^verbatim>\<open>while (digits.length <= p) digits.unshift('0')\<close>\<close>

function pad_digits :: "nat \<Rightarrow> string \<Rightarrow> string" where
  "pad_digits p digits = (if length digits \<le> p then pad_digits p (CHR ''0'' # digits) else digits)"
  by pat_completeness auto
termination
  by (relation "measure (\<lambda>(p, digits). Suc p - length digits)") auto

declare pad_digits.simps [simp del]

definition Asset_toString :: "Asset \<Rightarrow> string" where
  "Asset_toString a =
     (let digits0 = Int64_toString (units a);
          negative = (take 1 digits0 = ''-'');
          digits1 = (if negative then drop 1 digits0 else digits0);
          p = Symbol_precision (symbol a);
          digits2 = pad_digits p digits1;
          digits3 = (if p > 0
                     then take (length digits2 - p) digits2 @ ''.'' @ drop (length digits2 - p) digits2
                     else digits2);
          rv = (if negative then ''-'' @ digits3 else digits3)
      in rv @ '' '' @ Symbol_name (symbol a))"

text \<open>
  The pieces of the rendering, in the words of the specification: the sign, the decimal
  digits of the magnitude, and these digits with zeros put in front until there are
  \<open>p + 1\<close> of them.
\<close>

definition sign_of :: "Int64 \<Rightarrow> string" where
  "sign_of u = (if sint u < 0 then ''-'' else [])"

definition magnitude_digits :: "Int64 \<Rightarrow> string" where
  "magnitude_digits u = digits_of (nat \<bar>sint u\<bar>)"

definition padded_digits :: "nat \<Rightarrow> Int64 \<Rightarrow> string" where
  "padded_digits p u = replicate (Suc p - length (magnitude_digits u)) CHR ''0'' @ magnitude_digits u"



section \<open>Arithmetic on numbers\<close>

fun number_times :: "number \<Rightarrow> number \<Rightarrow> number" where
  "number_times (Num a) (Num b) = round_double (a * b)"
| "number_times NaN _ = NaN"
| "number_times _ NaN = NaN"
| "number_times (Num a) Infinity = (if a = 0 then NaN else if 0 < a then Infinity else NegInfinity)"
| "number_times (Num a) NegInfinity = (if a = 0 then NaN else if 0 < a then NegInfinity else Infinity)"
| "number_times Infinity (Num b) = (if b = 0 then NaN else if 0 < b then Infinity else NegInfinity)"
| "number_times NegInfinity (Num b) = (if b = 0 then NaN else if 0 < b then NegInfinity else Infinity)"
| "number_times Infinity Infinity = Infinity"
| "number_times Infinity NegInfinity = NegInfinity"
| "number_times NegInfinity Infinity = NegInfinity"
| "number_times NegInfinity NegInfinity = Infinity"

text \<open>\<^verbatim>\<open>a >= b\<close> on numbers: false as soon as one side is \<open>NaN\<close>.\<close>

fun number_ge :: "number \<Rightarrow> number \<Rightarrow> bool" where
  "number_ge NaN _ = False"
| "number_ge _ NaN = False"
| "number_ge (Num a) (Num b) = (b \<le> a)"
| "number_ge Infinity _ = True"
| "number_ge _ NegInfinity = True"
| "number_ge NegInfinity _ = False"
| "number_ge _ Infinity = False"

text \<open>\<^verbatim>\<open>Math.pow(10, p)\<close> for a natural number \<open>p\<close>.\<close>

definition Math_pow10 :: "nat \<Rightarrow> number" where
  "Math_pow10 p = round_double (10 ^ p)"

text \<open>\<^verbatim>\<open>convertFloat\<close>: the guard compares the scaled value itself with \<open>2 ^ 53\<close>.\<close>

definition convertFloat :: "Symbol \<Rightarrow> number \<Rightarrow> error + Int64" where
  "convertFloat s float =
     (let rv = number_times (Math_pow10 (Symbol_precision s)) float
      in if number_ge rv (Num 0x20000000000000) then Inl ConversionLoosesPrecision
         else Int64_from_number rv)"

text \<open>The setter \<^verbatim>\<open>value\<close> of an asset.\<close>

definition Asset_set_value :: "Asset \<Rightarrow> number \<Rightarrow> error + Asset" where
  "Asset_set_value a newValue =
     (case convertFloat (symbol a) newValue of
        Inl e \<Rightarrow> Inl e
      | Inr u \<Rightarrow> Inr (a\<lparr>units := u\<rparr>))"

section \<open>Bytes of a number\<close>

lemma le_bytes_0 [simp]: "le_bytes 0 = []"
  by (simp add: le_bytes.simps)

lemma le_bytes_pos: "0 < n \<Longrightarrow> le_bytes n = (n mod 256) # le_bytes (n div 256)"
  by (subst le_bytes.simps) simp

lemma le_value_le_bytes: "le_value (le_bytes n) = n"
proof (induction n rule: le_bytes.induct)
  case (1 n)
  show ?case
  proof (cases "n = 0")
    case True
    then show ?thesis by simp
  next
    case False
    with 1 show ?thesis by (simp add: le_bytes_pos)
  qed
qed

lemma le_bytes_are_bytes: "b \<in> set (le_bytes n) \<Longrightarrow> b < 256"
proof (induction n rule: le_bytes.induct)
  case (1 n)
  then show ?case
    by (cases "n = 0") (auto simp: le_bytes_pos)
qed

lemma length_le_bytes: "n < 256 ^ k \<Longrightarrow> length (le_bytes n) \<le> k"
proof (induction k arbitrary: n)
  case 0
  then show ?case by simp
next
  case (Suc k)
  show ?case
  proof (cases "n = 0")
    case True
    then show ?thesis by simp
  next
    case False
    from Suc.prems have "n div 256 < 256 ^ k"
      by (simp add: less_mult_imp_div_less mult.commute)
    with Suc.IH False show ?thesis by (simp add: le_bytes_pos)
  qed
qed

lemma le_value_bound: "list_all (\<lambda>b. b < 256) bs \<Longrightarrow> le_value bs < 256 ^ length bs"
proof (induction bs)
  case Nil
  then show ?case by simp
next
  case (Cons b bs)
  then have "b < 256" and "le_value bs < 256 ^ length bs" by simp_all
  then have "b + 256 * le_value bs < 256 * (le_value bs + 1)"
    and "256 * (le_value bs + 1) \<le> 256 * 256 ^ length bs"
    by simp_all
  then show ?case by simp
qed

lemma le_value_eq_0:
  "list_all (\<lambda>b. b < 256) bs \<Longrightarrow> le_value bs = 0 \<longleftrightarrow> strip_zeros bs = []"
  by (induction bs) (auto simp: Let_def)

lemma le_bytes_le_value:
  "list_all (\<lambda>b. b < 256) bs \<Longrightarrow> le_bytes (le_value bs) = strip_zeros bs"
proof (induction bs)
  case Nil
  then show ?case by simp
next
  case (Cons b bs)
  then have b: "b < 256" and bs: "list_all (\<lambda>b. b < 256) bs" by simp_all
  show ?case
  proof (cases "b + 256 * le_value bs = 0")
    case True
    then have "b = 0" and z: "le_value bs = 0" by simp_all
    from z bs have "strip_zeros bs = []" by (simp add: le_value_eq_0)
    with \<open>b = 0\<close> z show ?thesis by simp
  next
    case False
    then have "le_bytes (le_value (b # bs)) = b # le_bytes (le_value bs)"
      using b by (simp add: le_bytes_pos)
    with Cons.IH bs False show ?thesis
      by (auto simp: Let_def le_value_eq_0)
  qed
qed

lemma le_value_bytes_of:
  "le_value (map (\<lambda>i. (n div 256 ^ i) mod 256) [0..<k]) = n mod 256 ^ k"
proof (induction k arbitrary: n)
  case 0
  then show ?case by simp
next
  case (Suc k)
  have "map (\<lambda>i. (n div 256 ^ i) mod 256) [0..<Suc k]
      = (n mod 256) # map (\<lambda>i. ((n div 256) div 256 ^ i) mod 256) [0..<k]"
    by (simp add: upt_conv_Cons map_Suc_upt [symmetric] div_mult2_eq del: upt_Suc)
  then have "le_value (map (\<lambda>i. (n div 256 ^ i) mod 256) [0..<Suc k])
      = n mod 256 + 256 * ((n div 256) mod 256 ^ k)"
    by (simp add: Suc.IH)
  also have "\<dots> = n mod 256 ^ Suc k"
    by (simp add: mod_mult2_eq)
  finally show ?case .
qed

section \<open>The array constructor on bytes\<close>

text \<open>
  On an array of bytes, \<^verbatim>\<open>new BN(array, 'le')\<close> is the integer with these little-endian
  bytes: the 24 bits of a group of three bytes fall on one word, or across two.
\<close>

lemma or_push_bit_eq_add:
  fixes a b :: nat
  assumes "a < 2 ^ n"
  shows "a OR push_bit n b = a + push_bit n b"
proof -
  from assms have a: "take_bit n a = a" by (simp add: take_bit_nat_eq_self)
  have "a AND push_bit n b = 0"
  proof (rule bit_eqI)
    fix m
    have "bit a m \<Longrightarrow> m < n"
      using a by (metis bit_take_bit_iff)
    then show "bit (a AND push_bit n b) m = bit (0::nat) m"
      by (auto simp: bit_and_iff bit_push_bit_iff)
  qed
  then show ?thesis by (simp add: disjunctive_add_eq_or)
qed

lemma le_value_append: "le_value (xs @ ys) = le_value xs + 256 ^ length xs * le_value ys"
  by (induction xs) (simp_all add: algebra_simps)

lemma le_value_take3:
  "le_value (take 3 xs) =
     (if 0 < length xs then xs ! 0 else 0) + 256 * (if 1 < length xs then xs ! 1 else 0)
       + 65536 * (if 2 < length xs then xs ! 2 else 0)"
proof (cases xs)
  case Nil
  then show ?thesis by simp
next
  case (Cons a ys)
  show ?thesis
  proof (cases ys)
    case Nil
    with Cons show ?thesis by simp
  next
    case (Cons b zs)
    with \<open>xs = a # ys\<close> show ?thesis
      by (cases zs) (simp_all add: numeral_3_eq_3)
  qed
qed

lemma BN_entry_byte:
  assumes "list_all (\<lambda>b. b < 256) bs"
  shows "BN_entry bs i = (if i < length bs then bs ! i else 0)" and "BN_entry bs i < 256"
proof -
  have "bs ! i < 256" if "i < length bs"
    using assms that by (simp add: list_all_length)
  then show "BN_entry bs i = (if i < length bs then bs ! i else 0)" and "BN_entry bs i < 256"
    by (auto simp: BN_entry_def take_bit_nat_eq_self intro: less_trans)
qed

lemma BN_group_bytes:
  assumes "list_all (\<lambda>b. b < 256) bs"
  shows "BN_group bs i = le_value (take 3 (drop i bs))" and "BN_group bs i < 2 ^ 24"
proof -
  let ?e0 = "BN_entry bs i" and ?e1 = "BN_entry bs (i + 1)" and ?e2 = "BN_entry bs (i + 2)"
  have e: "?e0 < 256" "?e1 < 256" "?e2 < 256"
    by (rule BN_entry_byte(2) [OF assms])+
  have "?e0 OR push_bit 8 ?e1 = ?e0 + push_bit 8 ?e1"
    using e(1) by (intro or_push_bit_eq_add) simp
  moreover have "?e0 + push_bit 8 ?e1 < 2 ^ 16"
    using e by (simp add: push_bit_eq_mult)
  then have "(?e0 + push_bit 8 ?e1) OR push_bit 16 ?e2 = ?e0 + push_bit 8 ?e1 + push_bit 16 ?e2"
    by (rule or_push_bit_eq_add)
  moreover have "?e0 OR push_bit 8 ?e1 OR push_bit 16 ?e2 = (?e0 OR push_bit 8 ?e1) OR push_bit 16 ?e2"
    by (simp only: or.assoc)
  ultimately have "?e0 OR push_bit 8 ?e1 OR push_bit 16 ?e2 = ?e0 + push_bit 8 ?e1 + push_bit 16 ?e2"
    by (simp only:)
  then have o: "?e0 OR push_bit 8 ?e1 OR push_bit 16 ?e2 = ?e0 + 256 * ?e1 + 65536 * ?e2"
    by (simp add: push_bit_eq_mult)
  have lt: "?e0 + 256 * ?e1 + 65536 * ?e2 < 2 ^ 24"
    using e by simp
  then have g: "BN_group bs i = ?e0 + 256 * ?e1 + 65536 * ?e2"
    unfolding BN_group_def o by (simp add: take_bit_nat_eq_self)
  with lt show "BN_group bs i < 2 ^ 24" by simp
  have n: "BN_entry bs (i + k) = (if k < length (drop i bs) then drop i bs ! k else 0)" for k
    by (simp add: BN_entry_byte(1) [OF assms] less_diff_conv add.commute)
  have "le_value (take 3 (drop i bs)) = ?e0 + 256 * ?e1 + 65536 * ?e2"
    using n [of 0] n [of 1] n [of 2] by (simp add: le_value_take3)
  with g show "BN_group bs i = le_value (take 3 (drop i bs))" by simp
qed


lemma BN_initArray_le_bytes:
  assumes bytes: "list_all (\<lambda>b. b < 256) bs"
  shows "\<lbrakk>26 * j + off = 8 * i; off \<le> 26; 3 dvd i; i < length bs + 3;
          (\<Sum>m<j. words m * 2 ^ (26 * m)) + words j * 2 ^ (26 * j) = le_value (take i bs);
          words j < 2 ^ off; \<forall>m>j. words m = 0\<rbrakk>
     \<Longrightarrow> \<exists>j'. 13 * j' \<le> 12 * ((length bs + 2) div 3) \<and>
            (\<Sum>m<j'. BN_initArray_le bs i j off words m * 2 ^ (26 * m))
              + BN_initArray_le bs i j off words j' * 2 ^ (26 * j') = le_value bs
            \<and> (\<forall>m>j'. BN_initArray_le bs i j off words m = 0)"
proof (induction "length bs - i" arbitrary: i j off words rule: less_induct)
  case less
  note bits = \<open>26 * j + off = 8 * i\<close> and off = \<open>off \<le> 26\<close> and dvd = \<open>3 dvd i\<close>
    and ilen = \<open>i < length bs + 3\<close>
    and total = \<open>(\<Sum>m<j. words m * 2 ^ (26 * m)) + words j * 2 ^ (26 * j) = le_value (take i bs)\<close>
    and top = \<open>words j < 2 ^ off\<close> and zero = \<open>\<forall>m>j. words m = 0\<close>
  show ?case
  proof (cases "i < length bs")
    case False
    then have "BN_initArray_le bs i j off words = words"
      by (subst BN_initArray_le.simps) simp
    moreover have "take i bs = bs" using False by simp
    moreover have "i = 3 * ((length bs + 2) div 3)"
      using False dvd ilen by presburger
    then have "13 * j \<le> 12 * ((length bs + 2) div 3)"
      using bits by simp
    ultimately show ?thesis
      using total zero by (intro exI [of _ j]) simp
  next
    case True
    define w where "w = BN_group bs i"
    have w: "w = le_value (take 3 (drop i bs))" and w24: "w < 2 ^ 24"
      unfolding w_def by (rule BN_group_bytes [OF bytes])+
    define D :: nat where "D = 2 ^ (26 - off)"
    define a where "a = words j + 2 ^ off * (w mod D)"
    define b where "b = w div D"
    have D: "2 ^ off * D = (2 :: nat) ^ 26"
      unfolding D_def using off by (simp flip: power_add)
    have "take_bit 26 (push_bit off w) = push_bit off (take_bit (26 - off) w)"
      by (simp add: take_bit_push_bit)
    then have t: "take_bit 26 (push_bit off w) = push_bit off (w mod D)"
      by (simp add: take_bit_eq_mod D_def)
    have "words j OR push_bit off (w mod D) = words j + push_bit off (w mod D)"
      using top by (rule or_push_bit_eq_add)
    then have w1: "words j OR take_bit 26 (push_bit off w) = a"
      unfolding t a_def by (simp add: push_bit_eq_mult mult.commute)
    have "w div D < 2 ^ 26"
      by (rule le_less_trans [OF div_le_dividend]) (use w24 in simp)
    then have w2: "take_bit 26 (drop_bit (26 - off) w) = b"
      by (simp add: b_def D_def drop_bit_eq_div take_bit_nat_eq_self)
    define ws where "ws = (words(j := a))(j + 1 := b)"
    have step: "BN_initArray_le bs i j off words =
        (if 26 \<le> off + 24 then BN_initArray_le bs (i + 3) (j + 1) (off + 24 - 26) ws
         else BN_initArray_le bs (i + 3) j (off + 24) ws)"
      using True
      by (subst BN_initArray_le.simps) (simp add: Let_def w_def [symmetric] w1 w2 ws_def)
    have "take (i + 3) bs = take i bs @ take 3 (drop i bs)"
      by (simp add: take_add)
    then have tk: "le_value (take (i + 3) bs) = le_value (take i bs) + 256 ^ i * w"
      using True by (simp add: le_value_append w min_def)
    have p256: "(256 :: nat) ^ i = 2 ^ (26 * j) * 2 ^ off"
    proof -
      have "(256 :: nat) ^ i = 2 ^ (8 * i)" by (simp add: power_mult)
      also have "\<dots> = 2 ^ (26 * j + off)" using bits by simp
      finally show ?thesis by (simp add: power_add)
    qed
    define P :: nat where "P = 2 ^ (26 * j)"
    define X where "X = 2 ^ off * (w mod D)"
    have "X + 2 ^ 26 * b = 2 ^ off * (w mod D) + 2 ^ off * (D * (w div D))"
      unfolding X_def b_def D [symmetric] by (simp add: mult.assoc)
    also have "\<dots> = 2 ^ off * (w mod D + D * (w div D))"
      by (simp only: distrib_left)
    also have "\<dots> = 2 ^ off * w"
      by simp
    finally have split: "2 ^ off * w = X + 2 ^ 26 * b" by simp
    have "(2 :: nat) ^ (26 * (j + 1)) = P * 2 ^ 26"
      by (simp add: P_def power_add)
    then have "a * 2 ^ (26 * j) + b * 2 ^ (26 * (j + 1)) = (words j + X) * P + b * (P * 2 ^ 26)"
      by (simp only: a_def X_def P_def)
    also have "\<dots> = words j * P + P * (X + 2 ^ 26 * b)"
      by (simp add: algebra_simps)
    also have "\<dots> = words j * P + P * (2 ^ off * w)"
      by (simp only: split)
    also have "\<dots> = words j * 2 ^ (26 * j) + 256 ^ i * w"
      by (simp only: p256 P_def mult.assoc)
    finally have key: "a * 2 ^ (26 * j) + b * 2 ^ (26 * (j + 1)) = words j * 2 ^ (26 * j) + 256 ^ i * w" .
    have lo: "(\<Sum>m<j. ws m * 2 ^ (26 * m)) = (\<Sum>m<j. words m * 2 ^ (26 * m))"
      by (rule sum.cong) (simp_all add: ws_def)
    show ?thesis
    proof (cases "26 \<le> off + 24")
      case True
      then have off2: "2 \<le> off" by simp
      have "2 ^ 24 = D * (2 :: nat) ^ (off - 2)"
        unfolding D_def using off off2 by (simp flip: power_add)
      with w24 have btop: "b < 2 ^ (off - 2)"
        unfolding b_def by (simp add: less_mult_imp_div_less mult.commute)
      have "\<exists>j'. 13 * j' \<le> 12 * ((length bs + 2) div 3) \<and>
            (\<Sum>m<j'. BN_initArray_le bs (i + 3) (j + 1) (off + 24 - 26) ws m * 2 ^ (26 * m))
              + BN_initArray_le bs (i + 3) (j + 1) (off + 24 - 26) ws j' * 2 ^ (26 * j') = le_value bs
            \<and> (\<forall>m>j'. BN_initArray_le bs (i + 3) (j + 1) (off + 24 - 26) ws m = 0)"
      proof (rule less.hyps)
        show "length bs - (i + 3) < length bs - i" using \<open>i < length bs\<close> by simp
        show "26 * (j + 1) + (off + 24 - 26) = 8 * (i + 3)" using bits off2 by simp
        show "off + 24 - 26 \<le> 26" using off by simp
        show "3 dvd i + 3" using dvd by simp
        show "i + 3 < length bs + 3" using \<open>i < length bs\<close> by simp
        show "(\<Sum>m<j + 1. ws m * 2 ^ (26 * m)) + ws (j + 1) * 2 ^ (26 * (j + 1))
            = le_value (take (i + 3) bs)"
          using lo key total tk by (simp add: ws_def)
        show "ws (j + 1) < 2 ^ (off + 24 - 26)" using btop by (simp add: ws_def)
        show "\<forall>m>j + 1. ws m = 0" using zero by (simp add: ws_def)
      qed
      with True show ?thesis by (simp only: step if_True)
    next
      case False
      then have off2: "off < 2" by simp
      have "(2 :: nat) ^ 24 \<le> D"
        unfolding D_def using off2 by (intro power_increasing) simp_all
      with w24 have b0: "b = 0" and wm: "w mod D = w"
        unfolding b_def by simp_all
      have atop: "a < 2 ^ (off + 24)"
      proof -
        have "a < 2 ^ off + 2 ^ off * w" unfolding a_def wm using top by simp
        also have "\<dots> = 2 ^ off * (w + 1)" by simp
        also have "\<dots> \<le> 2 ^ off * 2 ^ 24" using w24 by (intro mult_le_mono2) simp
        finally show ?thesis by (simp add: power_add)
      qed
      have "\<exists>j'. 13 * j' \<le> 12 * ((length bs + 2) div 3) \<and>
            (\<Sum>m<j'. BN_initArray_le bs (i + 3) j (off + 24) ws m * 2 ^ (26 * m))
              + BN_initArray_le bs (i + 3) j (off + 24) ws j' * 2 ^ (26 * j') = le_value bs
            \<and> (\<forall>m>j'. BN_initArray_le bs (i + 3) j (off + 24) ws m = 0)"
      proof (rule less.hyps)
        show "length bs - (i + 3) < length bs - i" using \<open>i < length bs\<close> by simp
        show "26 * j + (off + 24) = 8 * (i + 3)" using bits by simp
        show "off + 24 \<le> 26" using off2 by simp
        show "3 dvd i + 3" using dvd by simp
        show "i + 3 < length bs + 3" using \<open>i < length bs\<close> by simp
        show "(\<Sum>m<j. ws m * 2 ^ (26 * m)) + ws j * 2 ^ (26 * j) = le_value (take (i + 3) bs)"
          using lo key total tk b0 by (simp add: ws_def)
        show "ws j < 2 ^ (off + 24)" using atop by (simp add: ws_def)
        show "\<forall>m>j. ws m = 0" using zero b0 by (simp add: ws_def)
      qed
      with False show ?thesis by (simp only: step if_False)
    qed
  qed
qed


lemma BN_from_le_bytes:
  assumes "list_all (\<lambda>b. b < 256) bs"
  shows "BN_from_le bs = le_value bs"
proof (cases "bs = []")
  case True
  then show ?thesis by (simp add: BN_from_le_def)
next
  case False
  define ws where "ws = BN_initArray_le bs 0 0 0 (\<lambda>k. 0)"
  define K where "K = (length bs + 2) div 3"
  have "\<exists>j'. 13 * j' \<le> 12 * ((length bs + 2) div 3) \<and>
      (\<Sum>m<j'. BN_initArray_le bs 0 0 0 (\<lambda>k. 0) m * 2 ^ (26 * m))
        + BN_initArray_le bs 0 0 0 (\<lambda>k. 0) j' * 2 ^ (26 * j') = le_value bs
      \<and> (\<forall>m>j'. BN_initArray_le bs 0 0 0 (\<lambda>k. 0) m = 0)"
    by (rule BN_initArray_le_bytes [OF assms]) simp_all
  then obtain j where j: "13 * j \<le> 12 * K"
    and total: "(\<Sum>m<j. ws m * 2 ^ (26 * m)) + ws j * 2 ^ (26 * j) = le_value bs"
    and zero: "\<forall>m>j. ws m = 0"
    unfolding ws_def K_def by blast
  from False have "0 < K" unfolding K_def by (cases bs) simp_all
  with j have jK: "j < K" by simp
  have "sum_list (map (\<lambda>k. ws k * 2 ^ (26 * k)) [0..<K]) = (\<Sum>m<K. ws m * 2 ^ (26 * m))"
    by (simp add: interv_sum_list_conv_sum_set_nat atLeast0LessThan)
  also have "{..<K} = {..<Suc j} \<union> {Suc j..<K}"
    using jK by auto
  also have "(\<Sum>m\<in>{..<Suc j} \<union> {Suc j..<K}. ws m * 2 ^ (26 * m))
      = (\<Sum>m<Suc j. ws m * 2 ^ (26 * m)) + (\<Sum>m = Suc j..<K. ws m * 2 ^ (26 * m))"
    by (rule sum.union_disjoint) auto
  also have "(\<Sum>m = Suc j..<K. ws m * 2 ^ (26 * m)) = 0"
    using zero by simp
  finally have "sum_list (map (\<lambda>k. ws k * 2 ^ (26 * k)) [0..<K]) = le_value bs"
    using total by simp
  with False show ?thesis
    by (simp add: BN_from_le_def Let_def ws_def K_def)
qed

section \<open>The array constructor on other entries\<close>

text \<open>
  Every word stays below \<open>2 ^ 26\<close>, whatever the entries. A number followed by at most
  seven bytes, the array that \<^verbatim>\<open>toRawSymbol\<close> builds, gives a value below \<open>2 ^ 64\<close>: three
  words, the last one of 12 bits.
\<close>

lemma or_less_2p:
  fixes a b :: nat
  assumes "a < 2 ^ n" and "b < 2 ^ n"
  shows "a OR b < 2 ^ n"
proof -
  from assms have "take_bit n a = a" "take_bit n b = b"
    by (simp_all add: take_bit_nat_eq_self)
  then have "take_bit n (a OR b) = a OR b"
    by (simp add: take_bit_or)
  then show ?thesis
    by (metis take_bit_nat_less_exp)
qed

lemma BN_initArray_le_words:
  "(\<And>k. words k < 2 ^ 26) \<Longrightarrow> BN_initArray_le number i j off words k < 2 ^ 26"
proof (induction number i j off words rule: BN_initArray_le.induct)
  case (1 number i j off words)
  show ?case
  proof (cases "i < length number")
    case False
    then show ?thesis using "1.prems" by (simp add: BN_initArray_le.simps [of number i])
  next
    case True
    define w where "w = BN_group number i"
    define words2 where
      "words2 = (words(j := words j OR take_bit 26 (push_bit off w)))
                  (j + 1 := take_bit 26 (drop_bit (26 - off) w))"
    have t: "take_bit 26 x < (2 ^ 26 :: nat)" for x
      by (rule take_bit_nat_less_exp)
    have o: "words j OR take_bit 26 (push_bit off w) < 2 ^ 26"
      by (rule or_less_2p [OF "1.prems" t])
    have b: "words2 m < 2 ^ 26" for m
      using "1.prems" [of m] o t [of "drop_bit (26 - off) w"]
      by (simp add: words2_def)
    show ?thesis
    proof (cases "26 \<le> off + 24")
      case yes: True
      have "BN_initArray_le number (i + 3) (j + 1) (off + 24 - 26) words2 k < 2 ^ 26"
        using True yes b
        by (intro "1.IH"(1) [OF True w_def refl words2_def yes]) 
      then show ?thesis
        using True yes
        by (simp add: BN_initArray_le.simps [of number i] Let_def w_def words2_def)
    next
      case no: False
      have "BN_initArray_le number (i + 3) j (off + 24) words2 k < 2 ^ 26"
        using True no b
        by (intro "1.IH"(2) [OF True w_def refl words2_def no])
      then show ?thesis
        using True no
        by (simp add: BN_initArray_le.simps [of number i] Let_def w_def words2_def)
    qed
  qed
qed


lemma words_value_bound:
  fixes W :: "nat \<Rightarrow> nat"
  assumes "\<And>k. W k < 2 ^ 26"
  shows "sum_list (map (\<lambda>k. W k * 2 ^ (26 * k)) [0..<K]) < 2 ^ (26 * K)"
proof (induction K)
  case 0
  then show ?case by simp
next
  case (Suc K)
  have "(W K + 1) * 2 ^ (26 * K) \<le> 2 ^ 26 * 2 ^ (26 * K)"
    using assms [of K] by (intro mult_right_mono) simp_all
  also have "\<dots> = 2 ^ (26 * Suc K)"
    by (simp only: power_add [symmetric]) simp
  finally have "W K * 2 ^ (26 * K) + 2 ^ (26 * K) \<le> 2 ^ (26 * Suc K)"
    by (simp only: add_mult_distrib mult_1)
  with Suc show ?case by simp
qed

lemma BN_entry_less:
  assumes "i < length number \<longrightarrow> number ! i < 256"
  shows "BN_entry number i < 256"
proof (cases "i < length number")
  case True
  with assms have "number ! i < 256" by simp
  moreover have "take_bit 32 (number ! i) \<le> number ! i"
    by (rule take_bit_nat_less_eq_self)
  ultimately have "take_bit 32 (number ! i) < 256"
    by (rule le_less_trans [rotated])
  then show ?thesis using True by (simp add: BN_entry_def)
next
  case False
  then show ?thesis by (simp add: BN_entry_def)
qed

lemma BN_group_last:
  assumes "length number \<le> i + 2"
    and "i < length number \<longrightarrow> number ! i < 256"
    and "i + 1 < length number \<longrightarrow> number ! (i + 1) < 256"
  shows "BN_group number i < 2 ^ 16"
proof -
  have a: "BN_entry number i < 2 ^ 16"
    using BN_entry_less [OF assms(2)] by simp
  have "BN_entry number (i + 1) * 256 < 256 * 256"
    using BN_entry_less [OF assms(3)] by simp
  then have b: "push_bit 8 (BN_entry number (i + 1)) < 2 ^ 16"
    by (simp add: push_bit_eq_mult)
  have c: "BN_entry number (i + 2) = 0"
    using assms(1) by (simp add: BN_entry_def)
  have "BN_group number i
      = take_bit 32 (BN_entry number i OR push_bit 8 (BN_entry number (i + 1)))"
    by (simp only: BN_group_def c push_bit_of_0 or.right_neutral)
  also have "\<dots> \<le> BN_entry number i OR push_bit 8 (BN_entry number (i + 1))"
    by (rule take_bit_nat_less_eq_self)
  also have "\<dots> < 2 ^ 16"
    by (rule or_less_2p [OF a b])
  finally show ?thesis .
qed

lemma BN_from_le_packed_bound:
  assumes len: "length cs \<le> 7" and bytes: "list_all (\<lambda>b. b < 256) cs"
  shows "BN_from_le (p # cs) < 2 ^ 64"
proof -
  define l where "l = p # cs"
  define W where "W = BN_initArray_le l 0 0 0 (\<lambda>k. 0)"
  define K where "K = (length l + 2) div 3"
  have W26: "W k < 2 ^ 26" for k
    unfolding W_def by (rule BN_initArray_le_words) simp
  have V: "BN_from_le l = sum_list (map (\<lambda>k. W k * 2 ^ (26 * k)) [0..<K])"
    by (simp add: BN_from_le_def l_def W_def K_def Let_def)
  show ?thesis
  proof (cases "length cs \<le> 5")
    case True
    then have "K \<le> 2" by (simp add: K_def l_def)
    have "BN_from_le l < 2 ^ (26 * K)"
      unfolding V by (rule words_value_bound) (rule W26)
    also have "(2::nat) ^ (26 * K) \<le> 2 ^ 64"
      using \<open>K \<le> 2\<close> by (intro power_increasing) simp_all
    finally show ?thesis by (simp add: l_def)
  next
    case False
    with len have l78: "length l = 7 \<or> length l = 8" by (auto simp: l_def)
    then have K3: "K = 3" by (auto simp: K_def)
    have g: "BN_group l 6 < 2 ^ 16"
    proof (rule BN_group_last)
      show "length l \<le> 6 + 2" using l78 by auto
      show "6 < length l \<longrightarrow> l ! 6 < 256"
        using bytes by (auto simp: l_def list_all_length)
      show "6 + 1 < length l \<longrightarrow> l ! (6 + 1) < 256"
        using bytes by (auto simp: l_def list_all_length)
    qed
    have f: "0 < length l" "3 < length l" "6 < length l" "\<not> 9 < length l"
      using l78 by auto
    have W2: "W 2 = take_bit 26 (drop_bit 4 (BN_group l 6))"
      unfolding W_def using l78
      by (auto simp add: BN_initArray_le.simps [of l 0] BN_initArray_le.simps [of l 3]
          BN_initArray_le.simps [of l 6] BN_initArray_le.simps [of l 9] Let_def f)
    have "drop_bit 4 (BN_group l 6) < 2 ^ 12"
      using g by (simp add: drop_bit_eq_div)
    moreover have "W 2 \<le> drop_bit 4 (BN_group l 6)"
      unfolding W2 by (rule take_bit_nat_less_eq_self)
    ultimately have w2: "W 2 < 2 ^ 12" by simp
    have low: "sum_list (map (\<lambda>k. W k * 2 ^ (26 * k)) [0..<2]) < 2 ^ (26 * 2)"
      by (rule words_value_bound) (rule W26)
    have "[0..<K] = [0..<2] @ [2]"
      unfolding K3 by (simp add: upt_rec numeral_eq_Suc)
    then have "BN_from_le l = sum_list (map (\<lambda>k. W k * 2 ^ (26 * k)) [0..<2]) + W 2 * 2 ^ 52"
      unfolding V by simp
    also have "\<dots> < 2 ^ 52 + W 2 * 2 ^ 52"
      using low by simp
    also have "\<dots> = (1 + W 2) * 2 ^ 52"
      by simp
    also have "\<dots> \<le> 2 ^ 12 * 2 ^ 52"
      using w2 by (intro mult_right_mono) simp_all
    finally show ?thesis by (simp add: l_def)
  qed
qed

section \<open>Unpacking, in terms of the bytes\<close>

lemma toSymbolPrecision_mod: "toSymbolPrecision v = unat v mod 256"
proof -
  have "v AND 0xff = take_bit 8 v"
    by (simp add: take_bit_eq_mask mask_eq_exp_minus_1)
  then have "toSymbolPrecision v = take_bit 8 (unat v)"
    by (simp add: toSymbolPrecision_def unsigned_take_bit_eq)
  then show ?thesis
    by (simp add: take_bit_eq_mod)
qed

lemma toSymbolName_le_bytes: "toSymbolName v = map char_of (le_bytes (unat v div 256))"
proof (cases "unat v = 0")
  case True
  then show ?thesis
    by (simp add: toSymbolName_def BN_toArray_be_def charsToSymbolName_def)
next
  case False
  then have "le_bytes (unat v) = (unat v mod 256) # le_bytes (unat v div 256)"
    by (simp add: le_bytes_pos)
  with False show ?thesis
    by (simp add: toSymbolName_def BN_toArray_be_def charsToSymbolName_def rev_map)
qed

lemma new_Symbol_bytes:
  "new_Symbol v =
     (if 18 < unat v mod 256 then Inl PrecisionTooLarge
      else if \<not> symbolNamePattern (map char_of (le_bytes (unat v div 256))) then Inl InvalidSymbolName
      else Inr \<lparr>sym_value = v\<rparr>)"
  by (simp add: new_Symbol_def toSymbolPrecision_mod toSymbolName_le_bytes maxPrecision_def)

section \<open>Eight bytes on the wire\<close>

lemma unat_byte_of:
  "unat (ucast (drop_bit (8 * i) (v :: 64 word)) :: 8 word) = (unat v div 256 ^ i) mod 256"
proof -
  have "unat (ucast (drop_bit (8 * i) v) :: 8 word) = take_bit 8 (unat (drop_bit (8 * i) v))"
    by (simp add: unsigned_ucast_eq)
  also have "\<dots> = take_bit 8 (drop_bit (8 * i) (unat v))"
    by (simp add: unat_drop_bit_eq)
  also have "\<dots> = (unat v div 2 ^ (8 * i)) mod 256"
    by (simp add: take_bit_eq_mod drop_bit_eq_div)
  also have "(2::nat) ^ (8 * i) = 256 ^ i"
    by (simp add: power_mult)
  finally show ?thesis .
qed

lemma bytes_are_bytes: "list_all (\<lambda>b. b < 256) (map unat (bs :: 8 word list))"
proof -
  have "unat b < 256" for b :: "8 word"
    using unsigned_less [of b, where ?'a = nat] by simp
  then show ?thesis by (simp add: list_all_iff)
qed

lemma BN_from_le_unat [simp]:
  "BN_from_le (map unat (bs :: byte list)) = le_value (map unat bs)"
  by (rule BN_from_le_bytes) (rule bytes_are_bytes)

lemma le_value_UInt64_to_bytes: "le_value (map unat (UInt64_to_bytes v)) = unat v"
proof -
  have "map unat (UInt64_to_bytes v) = map (\<lambda>i. (unat v div 256 ^ i) mod 256) [0..<8]"
    unfolding UInt64_to_bytes_def map_map by (rule map_cong) (simp_all add: unat_byte_of)
  then have "le_value (map unat (UInt64_to_bytes v)) = unat v mod 256 ^ 8"
    by (simp only: le_value_bytes_of)
  moreover have "unat v < 256 ^ 8"
    using unsigned_less [of v, where ?'a = nat] by simp
  ultimately show ?thesis by simp
qed

lemma length_UInt64_to_bytes [simp]: "length (UInt64_to_bytes v) = 8"
  by (simp add: UInt64_to_bytes_def)

lemma UInt64_fromABI_toABI: "UInt64_fromABI (UInt64_to_bytes v @ rest) = Inr (v, rest)"
  by (simp add: UInt64_fromABI_def le_value_UInt64_to_bytes UInt64_from_BN_def)

lemma le_value_nth:
  "list_all (\<lambda>b. b < 256) bs \<Longrightarrow> i < length bs \<Longrightarrow> (le_value bs div 256 ^ i) mod 256 = bs ! i"
proof (induction bs arbitrary: i)
  case Nil
  then show ?case by simp
next
  case (Cons b bs)
  show ?case
  proof (cases i)
    case 0
    with Cons.prems show ?thesis by simp
  next
    case (Suc j)
    from Cons.prems have "b < 256" by simp
    then have "(b + 256 * le_value bs) div 256 = le_value bs" by simp
    then have "(b + 256 * le_value bs) div (256 * 256 ^ j) = le_value bs div 256 ^ j"
      by (simp add: div_mult2_eq)
    with Cons Suc show ?thesis by simp
  qed
qed

lemma UInt64_to_bytes_from_le:
  assumes "length bs = 8"
  shows "UInt64_to_bytes (UInt64_from_BN (le_value (map unat bs))) = bs"
proof -
  let ?n = "le_value (map unat bs)"
  have "?n < 256 ^ length (map unat bs)"
    by (rule le_value_bound) (rule bytes_are_bytes)
  with assms have n: "?n < 2 ^ 64" by simp
  then have u: "unat (word_of_nat ?n :: 64 word) = ?n"
    by (simp add: unsigned_of_nat take_bit_nat_eq_self)
  show ?thesis
  proof (rule nth_equalityI)
    show "length (UInt64_to_bytes (UInt64_from_BN ?n)) = length bs"
      using assms by simp
  next
    fix i
    assume "i < length (UInt64_to_bytes (UInt64_from_BN ?n))"
    then have i: "i < 8" by simp
    have "unat (UInt64_to_bytes (UInt64_from_BN ?n) ! i) = (?n div 256 ^ i) mod 256"
      using i by (simp add: UInt64_to_bytes_def UInt64_from_BN_def unat_byte_of u del: of_nat_add of_nat_mult)
    also have "\<dots> = map unat bs ! i"
      using i assms by (intro le_value_nth bytes_are_bytes) simp
    also have "\<dots> = unat (bs ! i)"
      using i assms by simp
    finally show "UInt64_to_bytes (UInt64_from_BN ?n) ! i = bs ! i"
      by (simp add: word_unat_eq_iff)
  qed
qed

section \<open>Digits and pieces of strings\<close>

lemma of_char_digit_char: "d < 10 \<Longrightarrow> (of_char (digit_char d) :: nat) = 48 + d"
  by (simp add: digit_char_def)

lemma digit_value_digit_char: "d < 10 \<Longrightarrow> digit_value (digit_char d) = d"
  by (simp add: digit_value_def of_char_digit_char)

lemma is_digit_digit_char: "d < 10 \<Longrightarrow> is_digit 10 (digit_char d)"
  by (simp add: is_digit_def digit_value_digit_char)

lemma digits_of_small: "n < 10 \<Longrightarrow> digits_of n = [digit_char n]"
  by (subst digits_of.simps) simp

lemma digits_of_large: "10 \<le> n \<Longrightarrow> digits_of n = digits_of (n div 10) @ [digit_char (n mod 10)]"
  by (subst digits_of.simps) simp

lemma digits_of_not_Nil [simp]: "digits_of n \<noteq> []"
  by (cases "n < 10") (simp_all add: digits_of_small digits_of_large)

lemma digits_of_are_digits: "list_all (is_digit 10) (digits_of n)"
proof (induction n rule: digits_of.induct)
  case (1 n)
  then show ?case
    by (cases "n < 10") (simp_all add: digits_of_small digits_of_large is_digit_digit_char)
qed

lemma digits_value_snoc: "digits_value r (ds @ [c]) = digits_value r ds * r + digit_value c"
  by (simp add: digits_value_def)

lemma digits_value_digits_of: "digits_value 10 (digits_of n) = n"
proof (induction n rule: digits_of.induct)
  case (1 n)
  show ?case
  proof (cases "n < 10")
    case True
    then show ?thesis by (simp add: digits_of_small digits_value_def digit_value_digit_char)
  next
    case False
    with 1 show ?thesis
      by (simp add: digits_of_large digits_value_snoc digit_value_digit_char)
  qed
qed

lemma is_digit_10_code: "is_digit 10 c \<longleftrightarrow> 48 \<le> (of_char c :: nat) \<and> (of_char c :: nat) \<le> 57"
  by (auto simp: is_digit_def digit_value_def Let_def)

lemma split_on_no_sep: "sep \<notin> set xs \<Longrightarrow> split_on sep xs = [xs]"
  by (induction xs) auto

lemma split_on_append: "sep \<notin> set xs \<Longrightarrow> split_on sep (xs @ sep # ys) = xs # split_on sep ys"
  by (induction xs) auto

lemma split_on_two:
  "sep \<notin> set xs \<Longrightarrow> sep \<notin> set ys \<Longrightarrow> split_on sep (xs @ sep # ys) = [xs, ys]"
  by (simp add: split_on_append split_on_no_sep)

lemma digit_not_in:
  assumes "list_all (is_digit 10) ds" and "\<not> is_digit 10 c"
  shows "c \<notin> set ds"
  using assms by (auto simp: list_all_iff)

lemma bit_length_bounds: "0 < n \<Longrightarrow> 2 ^ (bit_length n - 1) \<le> n \<and> n < 2 ^ bit_length n"
proof (induction n rule: bit_length.induct)
  case (1 n)
  show ?case
  proof (cases "n div 2 = 0")
    case True
    with 1(2) have "n = 1" by (cases n) auto
    then show ?thesis by (simp add: bit_length.simps [of 1] bit_length.simps [of 0] bit_length.simps [of "Suc 0"])
  next
    case False
    with 1 have ih: "2 ^ (bit_length (n div 2) - 1) \<le> n div 2" "n div 2 < 2 ^ bit_length (n div 2)"
      by simp_all
    from False have pos: "0 < bit_length (n div 2)"
      by (simp add: bit_length.simps [of "n div 2"])
    have bl: "bit_length n = Suc (bit_length (n div 2))"
      using 1(2) by (simp add: bit_length.simps [of n])
    have "2 ^ (bit_length n - 1) = 2 * 2 ^ (bit_length (n div 2) - 1)"
      using pos bl by (cases "bit_length (n div 2)") simp_all
    also have "\<dots> \<le> 2 * (n div 2)" using ih(1) by simp
    also have "\<dots> \<le> n" by simp
    finally have lo: "2 ^ (bit_length n - 1) \<le> n" .
    have "n < 2 * (n div 2 + 1)" by simp
    also have "\<dots> \<le> 2 * 2 ^ bit_length (n div 2)" using ih(2) by simp
    finally have "n < 2 ^ bit_length n" using bl by simp
    with lo show ?thesis by simp
  qed
qed

lemma round_half_even_of_int: "round_half_even (of_int k) = k"
  by (simp add: round_half_even_def Let_def)

lemma round_double_of_nat:
  assumes "n < 2 ^ 53"
  shows "round_double (of_nat n) = Num (of_nat n)"
proof (cases "n = 0")
  case True
  then show ?thesis by (simp add: round_double_def)
next
  case False
  define b where "b = bit_length n"
  from False have bounds: "2 ^ (b - 1) \<le> n" "n < 2 ^ b"
    using bit_length_bounds [of n] by (simp_all add: b_def)
  from False have bpos: "0 < b"
    by (simp add: b_def bit_length.simps [of n])
  have b53: "b \<le> 53"
  proof (rule ccontr)
    assume "\<not> b \<le> 53"
    then have "53 \<le> b - 1" by simp
    then have "(2::nat) ^ 53 \<le> 2 ^ (b - 1)" by (rule power_increasing) simp
    with bounds(1) assms show False by simp
  qed
  have q: "quotient_of (of_nat n) = (int n, 1)"
    using quotient_of_int [of "int n"] by simp
  have "(2::rat) ^ (b - 1) \<le> of_nat n"
    using bounds(1) by (metis of_nat_le_iff of_nat_numeral of_nat_power)
  then have bin: "binade (of_nat n) = int b - 1"
    using bpos
    by (simp add: binade_def q b_def [symmetric] bit_length.simps [of "Suc 0"] bit_length.simps [of 0]
        pow2_def Let_def nat_diff_distrib of_nat_diff)
  define k where "k = 53 - b"
  have e: "max (int b - 1 - 52) (- 1074) = - int k"
    using b53 by (simp add: k_def)
  have p: "pow2 (- int k) = 1 / 2 ^ k"
    by (simp add: pow2_def)
  have m: "of_nat n / (1 / 2 ^ k) = (of_int (int (n * 2 ^ k)) :: rat)"
    by simp
  have y: "of_int (round_half_even (of_nat n / (1 / 2 ^ k))) * (1 / 2 ^ k) = (of_nat n :: rat)"
    unfolding m round_half_even_of_int by simp
  have "(of_nat n :: rat) < 2 ^ 53"
    using assms by (metis of_nat_less_iff of_nat_numeral of_nat_power)
  also have "(2::rat) ^ 53 \<le> 2 ^ 1024" by (rule power_increasing) simp_all
  finally have small: "\<not> (2::rat) ^ 1024 \<le> of_nat n" by simp
  have qq: "pow2 (max (binade (of_nat n) - 52) (- 1074)) = 1 / 2 ^ k"
    unfolding bin e p ..
  show ?thesis
    unfolding round_double_def Let_def abs_of_nat qq y
    using False small by simp
qed

lemma parseInt_digits:
  assumes ds: "list_all (is_digit 10) ds" and ne: "ds \<noteq> []"
    and small: "digits_value 10 ds < 2 ^ 53"
  shows "parseInt ds = Num (of_nat (digits_value 10 ds))"
proof -
  obtain c cs where dcs: "ds = c # cs" using ne by (cases ds) auto
  with ds have c: "is_digit 10 c" by simp
  then have c48: "48 \<le> (of_char c :: nat)" "(of_char c :: nat) \<le> 57"
    by (simp_all add: is_digit_10_code)
  then have nw: "\<not> is_whitespace c" by (auto simp: is_whitespace_def)
  have c1: "c \<noteq> CHR ''-''" "c \<noteq> CHR ''+''" using c48 by auto
  have hex: "take 2 ds \<noteq> ''0x''" "take 2 ds \<noteq> ''0X''"
  proof -
    have "\<not> is_digit 10 CHR ''x''" "\<not> is_digit 10 CHR ''X''"
      by (simp_all add: is_digit_10_code)
    then have "CHR ''x'' \<notin> set ds" "CHR ''X'' \<notin> set ds"
      using ds by (auto simp: list_all_iff)
    then show "take 2 ds \<noteq> ''0x''" "take 2 ds \<noteq> ''0X''"
      by (metis in_set_takeD list.set_intros(1,2))+
  qed
  have tw: "takeWhile (is_digit 10) ds = ds"
    using ds by (simp add: list_all_iff)
  have dw: "dropWhile is_whitespace ds = ds"
    using nw dcs by simp
  have sg: "take 1 ds \<noteq> ''-''" "take 1 ds \<noteq> ''+''"
    using c1 dcs by simp_all
  show ?thesis
    unfolding parseInt_def dw Let_def using hex sg ne
    by (simp add: tw round_double_of_nat [OF small])
qed

lemma parseInt_digits_of: "n < 2 ^ 53 \<Longrightarrow> parseInt (digits_of n) = Num (of_nat n)"
  by (simp add: parseInt_digits digits_of_are_digits digits_value_digits_of)

section \<open>Packing a name and a precision\<close>

lemma ToInt32_of_nat: "p < 2 ^ 32 \<Longrightarrow> ToInt32 (Num (of_nat p)) = p"
  by (simp add: truncate_rat_def)

lemma toRawSymbolCode_take: "toRawSymbolCode name = map of_char (take 7 name)"
  by (simp add: toRawSymbolCode_def min_def)

lemma toRawSymbolCode_bytes: "list_all (\<lambda>b. b < 256) (toRawSymbolCode name)"
  by (simp add: toRawSymbolCode_take list_all_iff)

lemma length_toRawSymbolCode: "length (toRawSymbolCode name) \<le> 7"
  by (simp add: toRawSymbolCode_take)

lemma BN_from_le_codes [simp]:
  "BN_from_le (toRawSymbolCode name) = le_value (toRawSymbolCode name)"
  by (rule BN_from_le_bytes) (rule toRawSymbolCode_bytes)

lemma BN_from_le_packed:
  "p < 256 \<Longrightarrow> BN_from_le (p # toRawSymbolCode name) = p + 256 * le_value (toRawSymbolCode name)"
  by (simp add: BN_from_le_bytes toRawSymbolCode_bytes)

lemma BN_from_le_fits: "BN_from_le (p # toRawSymbolCode name) < 2 ^ 64"
  by (rule BN_from_le_packed_bound) (rule length_toRawSymbolCode, rule toRawSymbolCode_bytes)

lemma unat_toRawSymbol_any:
  "unat (toRawSymbol name precision) = BN_from_le (ToInt32 precision # toRawSymbolCode name)"
  using BN_from_le_fits [of "ToInt32 precision" name]
  by (simp add: toRawSymbol_def UInt64_from_BN_def unsigned_of_nat take_bit_nat_eq_self
      del: ToInt32.simps)

lemma le_value_codes_bound: "le_value (toRawSymbolCode name) < 256 ^ 7"
proof -
  have "le_value (toRawSymbolCode name) < 256 ^ length (toRawSymbolCode name)"
    by (rule le_value_bound) (rule toRawSymbolCode_bytes)
  also have "\<dots> \<le> (256::nat) ^ 7"
    by (rule power_increasing) (simp_all add: length_toRawSymbolCode)
  finally show ?thesis .
qed

lemma unat_toRawSymbol:
  assumes "p < 256"
  shows "unat (toRawSymbol name (Num (of_nat p))) = p + 256 * le_value (toRawSymbolCode name)"
proof -
  have "p + 256 * le_value (toRawSymbolCode name) < 2 ^ 64"
    using assms le_value_codes_bound [of name] by simp
  moreover have "ToInt32 (Num (of_nat p)) = p"
    using assms by (intro ToInt32_of_nat) simp
  ultimately show ?thesis
    by (simp add: toRawSymbol_def UInt64_from_BN_def unsigned_of_nat BN_from_le_packed [OF assms]
        take_bit_nat_eq_self del: of_nat_add of_nat_mult ToInt32.simps)
qed

lemma toSymbolPrecision_toRawSymbol:
  "p < 256 \<Longrightarrow> toSymbolPrecision (toRawSymbol name (Num (of_nat p))) = p"
  by (simp add: toSymbolPrecision_mod unat_toRawSymbol)

lemma toSymbolName_toRawSymbol:
  "p < 256 \<Longrightarrow> toSymbolName (toRawSymbol name (Num (of_nat p))) = ticker_of name"
  by (simp add: toSymbolName_le_bytes unat_toRawSymbol le_bytes_le_value toRawSymbolCode_bytes
      ticker_of_def toRawSymbolCode_take [symmetric])

lemma strip_zeros_id: "0 \<notin> set bs \<Longrightarrow> strip_zeros bs = bs"
  by (induction bs) (auto simp: Let_def)

lemma ticker_of_no_nul: "CHR 0x00 \<notin> set (take 7 name) \<Longrightarrow> ticker_of name = take 7 name"
proof -
  assume "CHR 0x00 \<notin> set (take 7 name)"
  then have "0 \<notin> set (map of_char (take 7 name) :: nat list)"
    by (auto simp: of_char_eq_iff [of _ "CHR 0x00", simplified])
  then show ?thesis
    by (simp add: ticker_of_def strip_zeros_id comp_def)
qed

lemma pattern_no_nul: "symbolNamePattern xs \<Longrightarrow> CHR 0x00 \<notin> set xs"
  by (auto simp: symbolNamePattern_def list_all_iff)

lemma Symbol_fromParts_byte:
  assumes "p < 256"
  shows "Symbol_fromParts name (Num (of_nat p)) =
    (if 18 < p then Inl PrecisionTooLarge
     else if \<not> symbolNamePattern (ticker_of name) then Inl InvalidSymbolName
     else Inr \<lparr>sym_value = toRawSymbol name (Num (of_nat p))\<rparr>)"
  using assms
  by (simp add: Symbol_fromParts_def new_Symbol_def maxPrecision_def
      toSymbolPrecision_toRawSymbol toSymbolName_toRawSymbol)

lemma Symbol_from_string_parts:
  assumes "CHR '','' \<notin> set name" and small: "p < 2 ^ 53"
  shows "Symbol_from (SymbolStr (digits_of p @ '','' @ name)) = Symbol_fromParts name (Num (of_nat p))"
proof -
  have "\<not> is_digit 10 CHR '',''"
    by (simp add: is_digit_10_code)
  then have "CHR '','' \<notin> set (digits_of p)"
    using digits_of_are_digits [of p] by (auto simp: list_all_iff)
  with assms have "split_on CHR '','' (digits_of p @ '','' @ name) = [digits_of p, name]"
    by (simp add: split_on_two)
  then show ?thesis
    by (simp add: parseInt_digits_of [OF small])
qed

section \<open>Evaluating concrete values\<close>

text \<open>
  The recursive functions unfold on numerals only, and a character made from a numeral is
  compared by its code: enough to evaluate the examples below with the simplifier.
\<close>

lemmas le_bytes_numeral = le_bytes.simps [of "numeral n" for n]

lemmas BN_initArray_le_numeral =
  BN_initArray_le.simps [of _ 0] BN_initArray_le.simps [of _ "numeral n" for n]

lemma upt_words: "[0..<2] = [0, 1]" "[0..<3] = [0, 1, 2]"
  by (simp_all add: upt_rec numeral_eq_Suc)

lemmas BN_eval = BN_from_le_def BN_initArray_le_numeral BN_group_def BN_entry_def Let_def upt_words

lemmas digits_of_numeral = digits_of.simps [of "numeral n" for n]

lemma replicate_numeral: "replicate (numeral k) x = x # replicate (pred_numeral k) x"
  by (simp add: numeral_eq_Suc)

lemma char_of_numeral_eq [simp]:
  "char_of (numeral k :: nat) = c \<longleftrightarrow> numeral k mod 256 = (of_char c :: nat)"
  by (simp add: char_of_eq_iff take_bit_eq_mod)

lemma char_of_0 [simp]: "char_of (0 :: nat) = CHR 0x00"
  by (simp add: char_of_eq_iff)

text \<open>The symbols \<^verbatim>\<open>4,EOS\<close> and \<^verbatim>\<open>0,EOS\<close>.\<close>

lemma toRawSymbol_EOS_4: "toRawSymbol ''EOS'' (Num 4) = 1397703940"
  by (simp add: toRawSymbol_def toRawSymbolCode_def UInt64_from_BN_def truncate_rat_def
        BN_from_le_bytes)

lemma Symbol_EOS_4:
  "Symbol_precision \<lparr>sym_value = 1397703940\<rparr> = 4"
  "Symbol_name \<lparr>sym_value = 1397703940\<rparr> = ''EOS''"
  by (simp_all add: Symbol_precision_def Symbol_name_def toSymbolPrecision_mod toSymbolName_le_bytes
      le_bytes_numeral)

lemma Symbol_EOS_0:
  "Symbol_precision \<lparr>sym_value = 1397703936\<rparr> = 0"
  "Symbol_name \<lparr>sym_value = 1397703936\<rparr> = ''EOS''"
  by (simp_all add: Symbol_precision_def Symbol_name_def toSymbolPrecision_mod toSymbolName_le_bytes
      le_bytes_numeral)

text \<open>Numerals, to evaluate the rounding.\<close>

lemmas bit_length_numeral = bit_length.simps [of "numeral n" for n] bit_length.simps [of "Suc 0"]
  bit_length.simps [of 0]

section \<open>A precision that is not a byte, an integer that is not a double\<close>

text \<open>
  \<^verbatim>\<open>Symbol.fromParts("EOS", 256)\<close>: the entry \<open>256\<close> and the code \<open>69\<close> of \<^verbatim>\<open>E\<close>, shifted
  by eight bits, are joined by \<^verbatim>\<open>|\<close>, where they share no bit: the symbol is \<^verbatim>\<open>0,EOS\<close>.
  (The sum of the entries with the weights \<open>256 ^ i\<close> would be \<^verbatim>\<open>0,FOS\<close>.)
\<close>

lemma Symbol_fromParts_EOS_256:
  "Symbol_fromParts ''EOS'' (Num 256) = Inr \<lparr>sym_value = 1397703936\<rparr>"
  by (simp add: Symbol_fromParts_def toRawSymbol_def toRawSymbolCode_def UInt64_from_BN_def
      truncate_rat_def BN_eval new_Symbol_bytes le_bytes_numeral symbolNamePattern_def)

text \<open>
  \<^verbatim>\<open>Symbol.fromParts("EOS", -1)\<close>: the entry \<open>- 1\<close> is 32 one bits, which fill the low
  word; the next word is written anew by the second group. The low byte is 255, and the
  precision is refused.
\<close>

lemma ToInt32_minus_1: "ToInt32 (Num (- 1)) = 4294967295"
proof -
  have "truncate_rat (- 1) = - 1"
    using ceiling_of_int [of "- 1", where ?'a = rat] by (simp add: truncate_rat_def)
  then show ?thesis by simp
qed

lemma toRawSymbol_EOS_minus_1: "toRawSymbol ''EOS'' (Num (- 1)) = 1409286143"
  by (simp add: toRawSymbol_def toRawSymbolCode_def UInt64_from_BN_def
      ToInt32_minus_1 BN_eval del: ToInt32.simps)

lemma Symbol_fromParts_EOS_minus_1: "Symbol_fromParts ''EOS'' (Num (- 1)) = Inl PrecisionTooLarge"
  by (simp add: Symbol_fromParts_def toRawSymbol_EOS_minus_1 new_Symbol_bytes)

text \<open>
  \<^verbatim>\<open>Symbol.from("9007199254740993,EOS")\<close>: the integer \<open>2 ^ 53 + 1\<close> is no double and
  \<^verbatim>\<open>parseInt\<close> gives \<open>2 ^ 53\<close>, whose low 32 bits are zero: the symbol is \<^verbatim>\<open>0,EOS\<close>.
\<close>

lemma round_double_tie: "round_double 9007199254740993 = Num 9007199254740992"
proof -
  have f: "\<lfloor>(9007199254740993 :: rat) / 2\<rfloor> = 4503599627370496"
    by (simp add: floor_eq_iff)
  show ?thesis
    by (simp add: round_double_def binade_def pow2_def round_half_even_def
        bit_length_numeral Let_def f)
qed

lemma parseInt_rounds: "parseInt ''9007199254740993'' = Num 9007199254740992"
  by (simp add: parseInt_def is_whitespace_def is_digit_10_code digits_value_def digit_value_def
      round_double_tie)

lemma Symbol_from_rounded_precision:
  "Symbol_from (SymbolStr ''9007199254740993,EOS'') = Inr \<lparr>sym_value = 1397703936\<rparr>"
  by (simp add: parseInt_rounds Symbol_fromParts_def toRawSymbol_def toRawSymbolCode_def
      UInt64_from_BN_def truncate_rat_def BN_eval new_Symbol_bytes le_bytes_numeral
      symbolNamePattern_def)

section \<open>Every new symbol is validated\<close>

text \<open>
  Claim C3. Every path that makes a new \<^verbatim>\<open>Symbol\<close> goes through the constructor on a
  packed integer: \<^verbatim>\<open>Symbol.from\<close> of an integer, \<^verbatim>\<open>Symbol.fromParts\<close>,
  \<^verbatim>\<open>Symbol.from\<close> of a string (unless the string does not split in two, which is its
  own error) and \<^verbatim>\<open>Symbol.fromABI\<close> (unless fewer than eight bytes are left; otherwise
  the integer is the one whose eight bytes were read). The constructor fails with the
  precision error when the low byte of the integer exceeds 18; otherwise it fails with
  the charset error when the bytes above the low byte, read as characters up to the
  highest non-zero byte, are not one to seven letters A-Z; otherwise it returns the
  symbol with that integer. So a symbol that was returned has a precision of at most 18
  and a name of one to seven letters A-Z, and \<^verbatim>\<open>fromABI\<close> rejects malformed bytes.
\<close>

theorem Symbol_construction_validates:
  "Symbol_from (SymbolRaw v) = new_Symbol v
   \<and> Symbol_fromParts name p = new_Symbol (toRawSymbol name p)
   \<and> (Symbol_from (SymbolStr str) = Inl InvalidSymbolString
        \<or> (\<exists>w. Symbol_from (SymbolStr str) = new_Symbol w))
   \<and> (Symbol_fromABI d = Inl DecodeUnderflow
        \<or> (\<exists>w. take 8 d = UInt64_to_bytes w
              \<and> Symbol_fromABI d = map_sum id (\<lambda>s. (s, drop 8 d)) (new_Symbol w)))
   \<and> new_Symbol v =
        (if 18 < unat v mod 256 then Inl PrecisionTooLarge
         else if \<not> symbolNamePattern (map char_of (le_bytes (unat v div 256)))
              then Inl InvalidSymbolName
         else Inr \<lparr>sym_value = v\<rparr>)
   \<and> (new_Symbol v = Inr s \<longrightarrow>
        sym_value s = v \<and> Symbol_precision s \<le> 18 \<and> symbolNamePattern (Symbol_name s))"
proof -
  have str: "Symbol_from (SymbolStr str) = Inl InvalidSymbolString
        \<or> (\<exists>w. Symbol_from (SymbolStr str) = new_Symbol w)"
    by (auto simp: Let_def Symbol_fromParts_def)
  have abi: "Symbol_fromABI d = Inl DecodeUnderflow
        \<or> (\<exists>w. take 8 d = UInt64_to_bytes w
              \<and> Symbol_fromABI d = map_sum id (\<lambda>s. (s, drop 8 d)) (new_Symbol w))"
  proof (cases "length d < 8")
    case True
    then show ?thesis by (simp add: Symbol_fromABI_def UInt64_fromABI_def)
  next
    case False
    let ?w = "UInt64_from_BN (le_value (map unat (take 8 d)))"
    from False have "take 8 d = UInt64_to_bytes ?w"
      by (simp add: UInt64_to_bytes_from_le)
    moreover from False
    have "Symbol_fromABI d = map_sum id (\<lambda>s. (s, drop 8 d)) (new_Symbol ?w)"
      by (simp add: Symbol_fromABI_def UInt64_fromABI_def split: sum.splits)
    ultimately show ?thesis by blast
  qed
  have ok: "new_Symbol v = Inr s \<longrightarrow>
        sym_value s = v \<and> Symbol_precision s \<le> 18 \<and> symbolNamePattern (Symbol_name s)"
    by (auto simp: new_Symbol_def Symbol_precision_def Symbol_name_def maxPrecision_def
          split: if_splits)
  show ?thesis
    using str abi ok by (simp add: Symbol_fromParts_def new_Symbol_bytes)
qed

theorem Symbol_construction_validates_witness:
  "new_Symbol 1397703940 = Inr \<lparr>sym_value = 1397703940\<rparr>
   \<and> Symbol_precision \<lparr>sym_value = 1397703940\<rparr> \<le> 18
   \<and> symbolNamePattern (Symbol_name \<lparr>sym_value = 1397703940\<rparr>)"
proof -
  have "symbolNamePattern (map char_of (le_bytes (unat (1397703940 :: 64 word) div 256)))"
    by (simp add: symbolNamePattern_def le_bytes_numeral)
  then have "new_Symbol 1397703940 = Inr \<lparr>sym_value = 1397703940\<rparr>"
    using Symbol_construction_validates [of 1397703940] by simp
  then show ?thesis
    using Symbol_construction_validates [of 1397703940 _ _ _ _ "\<lparr>sym_value = 1397703940\<rparr>"]
    by simp
qed


text \<open>Malformed bytes on the wire: a precision of 19, a lower-case letter, too few bytes.\<close>

lemma Symbol_fromABI_rejects:
  "Symbol_fromABI [19, 69, 79, 83, 0, 0, 0, 0] = Inl PrecisionTooLarge"
  "Symbol_fromABI [4, 101, 79, 83, 0, 0, 0, 0] = Inl InvalidSymbolName"
  "Symbol_fromABI [4, 0, 0, 0, 0, 0, 0, 0] = Inl InvalidSymbolName"
  "Symbol_fromABI [4, 69, 79, 83, 0, 0, 0] = Inl DecodeUnderflow"
  "Symbol_fromABI [4, 69, 79, 83, 0, 0, 0, 0, 7] = Inr (\<lparr>sym_value = 1397703940\<rparr>, [7])"
  by (simp_all add: Symbol_fromABI_def UInt64_fromABI_def UInt64_from_BN_def new_Symbol_bytes
      symbolNamePattern_def le_bytes_numeral BN_from_le_bytes)

section \<open>A name is cut to seven characters\<close>

lemma toRawSymbol_ABCDEFGH: "toRawSymbol ''ABCDEFGH'' (Num 4) = 5135868584551137540"
  by (simp add: toRawSymbol_def toRawSymbolCode_def UInt64_from_BN_def truncate_rat_def
        BN_from_le_bytes)

text \<open>
  Claim C2 says that a name of more than seven characters is refused with the charset
  error. It is not: \<^verbatim>\<open>toRawSymbolCode\<close> takes \<^verbatim>\<open>Math.min(name.length, 7)\<close> characters, so
  \<^verbatim>\<open>Symbol.fromParts("ABCDEFGH", 4)\<close> returns the symbol \<^verbatim>\<open>4,ABCDEFG\<close>.
\<close>

theorem Symbol_fromParts_long_name_accepted:
  "7 < length ''ABCDEFGH''
   \<and> Symbol_fromParts ''ABCDEFGH'' (Num 4) = Inr \<lparr>sym_value = 5135868584551137540\<rparr>
   \<and> Symbol_name \<lparr>sym_value = 5135868584551137540\<rparr> = ''ABCDEFG''"
  by (simp add: Symbol_fromParts_def toRawSymbol_ABCDEFGH new_Symbol_bytes Symbol_name_def
      toSymbolName_le_bytes le_bytes_numeral symbolNamePattern_def)

text \<open>
  Claim C2, amended. For a name of 8-bit characters and a precision \<open>p\<close> of at most 18,
  \<^verbatim>\<open>Symbol.fromParts(name, p)\<close> looks at the first seven characters of the name only,
  without the NUL characters at their end (\<open>ticker_of\<close>; with no NUL among them these are
  the first seven characters themselves). When they are one to seven letters A-Z it
  returns the symbol with that ticker and precision \<open>p\<close>: a longer name is cut, not
  refused. Otherwise (an empty name, a character outside A-Z among them) it fails with
  the charset error. For \<open>p\<close> from 19 to 255 it fails with the precision error. And
  \<^verbatim>\<open>Symbol.from\<close> on the string of \<open>p\<close>, a comma and a name without a comma is
  \<^verbatim>\<open>Symbol.fromParts(name, p)\<close>.
\<close>

theorem Symbol_fromParts_first_seven:
  "(p \<le> 18 \<longrightarrow>
      Symbol_fromParts name (Num (of_nat p)) =
        (if symbolNamePattern (ticker_of name)
         then Inr \<lparr>sym_value = toRawSymbol name (Num (of_nat p))\<rparr>
         else Inl InvalidSymbolName)
      \<and> Symbol_name \<lparr>sym_value = toRawSymbol name (Num (of_nat p))\<rparr> = ticker_of name
      \<and> Symbol_precision \<lparr>sym_value = toRawSymbol name (Num (of_nat p))\<rparr> = p
      \<and> (CHR '','' \<notin> set name \<longrightarrow>
            Symbol_from (SymbolStr (digits_of p @ '','' @ name)) = Symbol_fromParts name (Num (of_nat p))))
   \<and> (18 < p \<and> p < 256 \<longrightarrow> Symbol_fromParts name (Num (of_nat p)) = Inl PrecisionTooLarge)
   \<and> (CHR 0x00 \<notin> set (take 7 name) \<longrightarrow> ticker_of name = take 7 name)"
proof -
  have "Symbol_fromParts name (Num (of_nat p)) =
        (if symbolNamePattern (ticker_of name)
         then Inr \<lparr>sym_value = toRawSymbol name (Num (of_nat p))\<rparr>
         else Inl InvalidSymbolName)" if "p \<le> 18"
    using that by (simp add: Symbol_fromParts_byte)
  moreover have "Symbol_name \<lparr>sym_value = toRawSymbol name (Num (of_nat p))\<rparr> = ticker_of name"
    and "Symbol_precision \<lparr>sym_value = toRawSymbol name (Num (of_nat p))\<rparr> = p" if "p \<le> 18"
    using that
    by (simp_all add: Symbol_name_def Symbol_precision_def toSymbolName_toRawSymbol
        toSymbolPrecision_toRawSymbol)
  moreover have "Symbol_fromParts name (Num (of_nat p)) = Inl PrecisionTooLarge"
    if "18 < p" and "p < 256"
    using that by (simp add: Symbol_fromParts_byte)
  moreover have "ticker_of name = take 7 name" if "CHR 0x00 \<notin> set (take 7 name)"
    using that by (rule ticker_of_no_nul)
  moreover have "Symbol_from (SymbolStr (digits_of p @ '','' @ name))
      = Symbol_fromParts name (Num (of_nat p))" if "CHR '','' \<notin> set name" and "p \<le> 18"
    using that by (intro Symbol_from_string_parts) simp_all
  ultimately show ?thesis
    by blast
qed

theorem Symbol_fromParts_first_seven_witness:
  "Symbol_fromParts ''EOSIOTOKEN'' (Num 4) = Inr \<lparr>sym_value = toRawSymbol ''EOSIOTOKEN'' (Num 4)\<rparr>
   \<and> Symbol_name \<lparr>sym_value = toRawSymbol ''EOSIOTOKEN'' (Num 4)\<rparr> = ''EOSIOTO''
   \<and> Symbol_precision \<lparr>sym_value = toRawSymbol ''EOSIOTOKEN'' (Num 4)\<rparr> = 4
   \<and> Symbol_from (SymbolStr ''4,EOSIOTOKEN'') = Inr \<lparr>sym_value = toRawSymbol ''EOSIOTOKEN'' (Num 4)\<rparr>
   \<and> Symbol_fromParts ''eos'' (Num 4) = Inl InvalidSymbolName
   \<and> Symbol_fromParts [] (Num 4) = Inl InvalidSymbolName
   \<and> Symbol_fromParts ''eos'' (Num 19) = Inl PrecisionTooLarge"
proof -
  have t: "ticker_of ''EOSIOTOKEN'' = ''EOSIOTO''" "ticker_of ''eos'' = ''eos''" "ticker_of [] = []"
    by (simp_all add: ticker_of_def)
  have d: "digits_of 4 = ''4''"
    by (simp add: digits_of_small digit_char_def)
  show ?thesis
    using Symbol_fromParts_first_seven [of 4 "''EOSIOTOKEN''"]
      Symbol_fromParts_first_seven [of 4 "''eos''"]
      Symbol_fromParts_first_seven [of 4 "[]"]
      Symbol_fromParts_first_seven [of 19 "''eos''"]
    by (simp add: t d symbolNamePattern_def)
qed


section \<open>A symbol, its string and its bytes\<close>

lemma pattern_chars:
  "symbolNamePattern t \<Longrightarrow> c \<in> set t \<Longrightarrow> 65 \<le> (of_char c :: nat) \<and> (of_char c :: nat) \<le> 90"
  by (auto simp: symbolNamePattern_def list_all_iff)

lemma pattern_excludes:
  assumes "symbolNamePattern t"
  shows "CHR '','' \<notin> set t" and "CHR '' '' \<notin> set t" and "CHR ''.'' \<notin> set t"
  using pattern_chars [OF assms] by fastforce+

lemma ticker_of_pattern: "symbolNamePattern t \<Longrightarrow> ticker_of t = t"
proof -
  assume t: "symbolNamePattern t"
  then have "take 7 t = t" by (simp add: symbolNamePattern_def)
  moreover from t have "CHR 0x00 \<notin> set t" by (rule pattern_no_nul)
  ultimately show ?thesis by (simp add: ticker_of_no_nul)
qed

lemma Symbol_fromABI_toABI: 
  "new_Symbol (sym_value s) = Inr s \<Longrightarrow> Symbol_fromABI (Symbol_toABI s [] @ rest) = Inr (s, rest)"
  by (simp add: Symbol_fromABI_def Symbol_toABI_def UInt64_toABI_def UInt64_fromABI_toABI)

text \<open>
  Claim C4. For a precision \<open>p\<close> of at most 18 and a ticker \<open>t\<close> of one to seven letters
  A-Z, \<^verbatim>\<open>Symbol.fromParts(t, p)\<close> returns a symbol \<open>s\<close>; \<^verbatim>\<open>s.toString()\<close> is the
  decimal digits of \<open>p\<close>, a comma and \<open>t\<close>; \<^verbatim>\<open>Symbol.from\<close> of that string returns a
  symbol with the same packed value (it is \<open>s\<close>); and \<^verbatim>\<open>toABI\<close> writes the eight bytes of
  the packed value, from which \<^verbatim>\<open>fromABI\<close> reads \<open>s\<close> again, with the same packed value.
\<close>

theorem Symbol_roundtrip:
  "p \<le> 18 \<and> symbolNamePattern t \<longrightarrow>
     (let s = \<lparr>sym_value = toRawSymbol t (Num (of_nat p))\<rparr> in
        Symbol_fromParts t (Num (of_nat p)) = Inr s
        \<and> Symbol_toString s = digits_of p @ '','' @ t
        \<and> Symbol_from (SymbolStr (Symbol_toString s)) = Inr s
        \<and> Symbol_toABI s [] = UInt64_to_bytes (sym_value s)
        \<and> Symbol_fromABI (Symbol_toABI s []) = Inr (s, []))"
proof (intro impI, elim conjE)
  assume p: "p \<le> 18" and t: "symbolNamePattern t"
  let ?s = "\<lparr>sym_value = toRawSymbol t (Num (of_nat p))\<rparr>"
  from p t have mk: "Symbol_fromParts t (Num (of_nat p)) = Inr ?s"
    by (simp add: Symbol_fromParts_byte ticker_of_pattern)
  from p t have str: "Symbol_toString ?s = digits_of p @ '','' @ t"
    by (simp add: Symbol_toString_def Symbol_name_def Symbol_precision_def
        toSymbolName_toRawSymbol toSymbolPrecision_toRawSymbol ticker_of_pattern)
  from p pattern_excludes(1) [OF t]
  have "Symbol_from (SymbolStr (digits_of p @ '','' @ t)) = Symbol_fromParts t (Num (of_nat p))"
    by (intro Symbol_from_string_parts) simp_all
  with mk str have again: "Symbol_from (SymbolStr (Symbol_toString ?s)) = Inr ?s"
    by simp
  from mk have "new_Symbol (sym_value ?s) = Inr ?s"
    by (simp add: Symbol_fromParts_def)
  then have "Symbol_fromABI (Symbol_toABI ?s [] @ []) = Inr (?s, [])"
    by (rule Symbol_fromABI_toABI)
  then have abi: "Symbol_fromABI (Symbol_toABI ?s []) = Inr (?s, [])"
    by simp
  have enc: "Symbol_toABI ?s [] = UInt64_to_bytes (sym_value ?s)"
    by (simp add: Symbol_toABI_def UInt64_toABI_def)
  show "let s = ?s in
        Symbol_fromParts t (Num (of_nat p)) = Inr s
        \<and> Symbol_toString s = digits_of p @ '','' @ t
        \<and> Symbol_from (SymbolStr (Symbol_toString s)) = Inr s
        \<and> Symbol_toABI s [] = UInt64_to_bytes (sym_value s)
        \<and> Symbol_fromABI (Symbol_toABI s []) = Inr (s, [])"
    unfolding Let_def using mk str again enc abi by blast
qed

theorem Symbol_roundtrip_witness:
  "Symbol_fromParts ''EOS'' (Num 4) = Inr \<lparr>sym_value = 1397703940\<rparr>
   \<and> Symbol_toString \<lparr>sym_value = 1397703940\<rparr> = ''4,EOS''
   \<and> Symbol_from (SymbolStr ''4,EOS'') = Inr \<lparr>sym_value = 1397703940\<rparr>
   \<and> Symbol_toABI \<lparr>sym_value = 1397703940\<rparr> [] = [4, 69, 79, 83, 0, 0, 0, 0]
   \<and> Symbol_fromABI [4, 69, 79, 83, 0, 0, 0, 0] = Inr (\<lparr>sym_value = 1397703940\<rparr>, [])"
proof -
  have d: "digits_of 4 = ''4''"
    by (simp add: digits_of_small digit_char_def)
  have b: "UInt64_to_bytes 1397703940 = [4, 69, 79, 83, 0, 0, 0, 0]"
    by (simp add: UInt64_to_bytes_def upt_rec drop_bit_eq_div)
  have "(4::nat) \<le> 18 \<and> symbolNamePattern ''EOS''"
    by (simp add: symbolNamePattern_def)
  with Symbol_roundtrip [of 4 "''EOS''"] show ?thesis
    by (auto simp add: Let_def toRawSymbol_EOS_4 d b simp del: Symbol_from.simps)
qed


section \<open>Rendering an asset\<close>

lemma pad_digits_replicate: "pad_digits p ds = replicate (Suc p - length ds) CHR ''0'' @ ds"
proof (induction p ds rule: pad_digits.induct)
  case (1 p ds)
  show ?case
  proof (cases "length ds \<le> p")
    case True
    then have "Suc p - length ds = Suc (p - length ds)" by simp
    with 1 True show ?thesis
      by (subst pad_digits.simps) (simp add: replicate_app_Cons_same)
  next
    case False
    then show ?thesis
      by (subst pad_digits.simps) simp
  qed
qed

lemma digits_of_hd_digit: "is_digit 10 (hd (digits_of n))"
  using digits_of_are_digits [of n] digits_of_not_Nil [of n]
  by (cases "digits_of n") auto

lemma digits_of_no_sign [simp]: "take 1 (digits_of n) \<noteq> ''-''"
proof -
  have "\<not> is_digit 10 CHR ''-''" by (simp add: is_digit_10_code)
  with digits_of_hd_digit [of n] show ?thesis
    by (cases "digits_of n") auto
qed

lemma Int64_toString_sign: "Int64_toString u = sign_of u @ magnitude_digits u"
  by (simp add: Int64_toString_def sign_of_def magnitude_digits_def)

lemma toString_negative: "take 1 (Int64_toString u) = ''-'' \<longleftrightarrow> sint u < 0"
proof (cases "sint u < 0")
  case True
  then show ?thesis by (simp add: Int64_toString_def)
next
  case False
  then have "Int64_toString u = digits_of (nat (sint u))"
    by (simp add: Int64_toString_def)
  with False show ?thesis
    by (simp only: digits_of_no_sign)
qed

lemma toString_digits:
  "(if sint u < 0 then drop 1 (Int64_toString u) else Int64_toString u) = magnitude_digits u"
  by (simp add: Int64_toString_def magnitude_digits_def abs_if)

lemma Asset_toString_parts:
  "Asset_toString a =
     (let p = Symbol_precision (symbol a); pd = padded_digits p (units a) in
      sign_of (units a) @ take (length pd - p) pd
        @ (if 0 < p then ''.'' @ drop (length pd - p) pd else [])
        @ '' '' @ Symbol_name (symbol a))"
proof -
  let ?p = "Symbol_precision (symbol a)"
  let ?pd = "padded_digits ?p (units a)"
  have "Asset_toString a =
      (if sint (units a) < 0
       then ''-'' @ (if 0 < ?p then take (length ?pd - ?p) ?pd @ ''.'' @ drop (length ?pd - ?p) ?pd else ?pd)
       else (if 0 < ?p then take (length ?pd - ?p) ?pd @ ''.'' @ drop (length ?pd - ?p) ?pd else ?pd))
      @ '' '' @ Symbol_name (symbol a)"
    unfolding Asset_toString_def Let_def toString_negative toString_digits pad_digits_replicate
      padded_digits_def [symmetric] ..
  then show ?thesis
    by (simp add: sign_of_def Let_def)
qed

lemma length_padded_digits: "length (padded_digits p u) = max (Suc p) (length (magnitude_digits u))"
  by (simp add: padded_digits_def)

lemma padded_digits_are_digits: "list_all (is_digit 10) (padded_digits p u)"
proof -
  have "is_digit 10 CHR ''0''" by (simp add: is_digit_10_code)
  then show ?thesis
    using digits_of_are_digits [of "nat \<bar>sint u\<bar>"]
    by (auto simp add: padded_digits_def magnitude_digits_def list_all_iff)
qed


text \<open>
  Claim C6. \<^verbatim>\<open>Asset.toString\<close> takes the sign off the decimal digits of the units and puts
  it back in front at the end; puts zeros in front of the digits so that there are at
  least \<open>p + 1\<close> of them, for the precision \<open>p\<close> of the symbol (no more zeros than that
  needs); puts the decimal point before the last \<open>p\<close> digits, so at least one digit
  stands before it and exactly \<open>p\<close> after; puts no decimal point when \<open>p = 0\<close>, where
  the digits stand as they are; and ends with a space and the name of the symbol.
\<close>

theorem Asset_toString_layout:
  "(let p = Symbol_precision (symbol a); pd = padded_digits p (units a) in
     Asset_toString a =
       sign_of (units a) @ take (length pd - p) pd
         @ (if 0 < p then ''.'' @ drop (length pd - p) pd else [])
         @ '' '' @ Symbol_name (symbol a)
     \<and> length pd = max (Suc p) (length (magnitude_digits (units a)))
     \<and> length (take (length pd - p) pd) \<ge> 1
     \<and> length (drop (length pd - p) pd) = p
     \<and> list_all (is_digit 10) pd
     \<and> (p = 0 \<longrightarrow>
          Asset_toString a = sign_of (units a) @ magnitude_digits (units a) @ '' '' @ Symbol_name (symbol a)))"
proof -
  let ?p = "Symbol_precision (symbol a)"
  let ?pd = "padded_digits ?p (units a)"
  have len: "length ?pd = max (Suc ?p) (length (magnitude_digits (units a)))"
    by (rule length_padded_digits)
  then have "length (take (length ?pd - ?p) ?pd) \<ge> 1" and "length (drop (length ?pd - ?p) ?pd) = ?p"
    by simp_all
  moreover have "padded_digits 0 (units a) = magnitude_digits (units a)"
    by (simp add: padded_digits_def magnitude_digits_def Suc_leI)
  then have "?p = 0 \<longrightarrow>
      Asset_toString a = sign_of (units a) @ magnitude_digits (units a) @ '' '' @ Symbol_name (symbol a)"
    by (simp add: Asset_toString_parts Let_def)
  moreover note len padded_digits_are_digits [of ?p "units a"] Asset_toString_parts [of a]
  ultimately show ?thesis
    unfolding Let_def by blast
qed

text \<open>
  The examples of the specification: \<open>-12500\<close> units of \<^verbatim>\<open>4,EOS\<close> and \<open>100\<close> units of
  \<^verbatim>\<open>0,EOS\<close>; and a value that needs the zeros.
\<close>

theorem Asset_toString_layout_witness:
  "Asset_toString \<lparr>units = - 12500, symbol = \<lparr>sym_value = 1397703940\<rparr>\<rparr> = ''-1.2500 EOS''
   \<and> Asset_toString \<lparr>units = 100, symbol = \<lparr>sym_value = 1397703936\<rparr>\<rparr> = ''100 EOS''
   \<and> Asset_toString \<lparr>units = 5, symbol = \<lparr>sym_value = 1397703940\<rparr>\<rparr> = ''0.0005 EOS''"
proof -
  have m: "magnitude_digits (- 12500) = ''12500''" "magnitude_digits 100 = ''100''" "magnitude_digits 5 = ''5''"
    by (simp_all add: magnitude_digits_def digits_of_numeral digits_of_small digit_char_def)
  have s: "sign_of (- 12500) = ''-''" "sign_of 100 = []" "sign_of 5 = []"
    by (simp_all add: sign_of_def)
  show ?thesis
    using Asset_toString_layout [of "\<lparr>units = - 12500, symbol = \<lparr>sym_value = 1397703940\<rparr>\<rparr>"]
      Asset_toString_layout [of "\<lparr>units = 100, symbol = \<lparr>sym_value = 1397703936\<rparr>\<rparr>"]
      Asset_toString_layout [of "\<lparr>units = 5, symbol = \<lparr>sym_value = 1397703940\<rparr>\<rparr>"]
    by (simp add: Let_def Symbol_EOS_4 Symbol_EOS_0 padded_digits_def m s replicate_numeral)
qed


section \<open>Reading an asset back from its string\<close>

lemma remove_first_absent: "c \<notin> set xs \<Longrightarrow> remove_first c xs = xs"
  by (induction xs) auto

lemma remove_first_append: "c \<notin> set xs \<Longrightarrow> remove_first c (xs @ c # ys) = xs @ ys"
  by (induction xs) auto

lemma digits_value_append:
  "digits_value r (xs @ ys) = foldl (\<lambda>acc c. acc * r + digit_value c) (digits_value r xs) ys"
  by (simp add: digits_value_def)

lemma digit_value_0 [simp]: "digit_value CHR ''0'' = 0"
  by (simp add: digit_value_def)

lemma digits_value_zeros: "digits_value r (replicate k CHR ''0'') = 0"
proof (induction k)
  case 0
  then show ?case by (simp add: digits_value_def)
next
  case (Suc k)
  have "replicate (Suc k) CHR ''0'' = replicate k CHR ''0'' @ ''0''"
    by (simp add: replicate_append_same)
  with Suc show ?case
    by (simp only: digits_value_snoc) simp
qed

lemma digits_value_leading_zeros: "digits_value r (replicate k CHR ''0'' @ ds) = digits_value r ds"
  by (simp add: digits_value_append digits_value_zeros) (simp add: digits_value_def)

lemma digits_value_padded: "digits_value 10 (padded_digits p u) = nat \<bar>sint u\<bar>"
  by (simp add: padded_digits_def digits_value_leading_zeros magnitude_digits_def digits_value_digits_of)

lemma padded_digits_not_Nil [simp]: "padded_digits p u \<noteq> []"
  by (simp add: padded_digits_def magnitude_digits_def)

lemma digits_no_sign:
  assumes "list_all (is_digit 10) ds" and "ds \<noteq> []"
  shows "take 1 ds \<noteq> ''-''"
proof -
  have "\<not> is_digit 10 CHR ''-''" by (simp add: is_digit_10_code)
  with assms show ?thesis by (cases ds) auto
qed

lemma Int64_from_int_sint: "Int64_from_int (sint (u :: 64 word)) = Inr u"
proof -
  have "- (2 ^ 63) \<le> sint u" and "sint u < 2 ^ 63"
    using sint_ge [of u] sint_lt [of u] by simp_all
  then show ?thesis
    by (simp add: Int64_from_int_def)
qed

lemma Int64_from_string_padded: "Int64_from_string (sign_of u @ padded_digits p u) = Inr u"
proof (cases "sint u < 0")
  case True
  then have "Int64_from_string (sign_of u @ padded_digits p u)
      = Int64_from_int (- int (digits_value 10 (padded_digits p u)))"
    by (simp add: Int64_from_string_def sign_of_def padded_digits_are_digits)
  also have "\<dots> = Int64_from_int (sint u)"
    using True by (simp add: digits_value_padded)
  finally show ?thesis by (simp add: Int64_from_int_sint)
next
  case False
  have "take 1 (padded_digits p u) \<noteq> ''-''"
    by (rule digits_no_sign) (simp_all add: padded_digits_are_digits)
  with False have "Int64_from_string (sign_of u @ padded_digits p u)
      = Int64_from_int (int (digits_value 10 (padded_digits p u)))"
    by (simp add: Int64_from_string_def sign_of_def padded_digits_are_digits)
  also have "\<dots> = Int64_from_int (sint u)"
    using False by (simp add: digits_value_padded)
  finally show ?thesis by (simp add: Int64_from_int_sint)
qed

lemma of_char_char_of_byte: "b < 256 \<Longrightarrow> (of_char (char_of b) :: nat) = b"
  by simp

lemma toRawSymbol_unpack:
  "toRawSymbol (toSymbolName v) (Num (of_nat (toSymbolPrecision v))) = v"
proof -
  let ?hi = "unat v div 256"
  have "unat v < 2 ^ 64"
    using unsigned_less [of v, where ?'a = nat] by simp
  then have hi: "?hi < 256 ^ 7" by simp
  then have len: "length (le_bytes ?hi) \<le> 7" by (rule length_le_bytes)
  have "map of_char (map char_of (le_bytes ?hi)) = (le_bytes ?hi :: nat list)"
    by (rule map_idI [where ?f = "of_char \<circ> char_of", unfolded map_map [symmetric]])
       (simp add: le_bytes_are_bytes)
  with len have "toRawSymbolCode (toSymbolName v) = le_bytes ?hi"
    by (simp add: toRawSymbolCode_take toSymbolName_le_bytes)
  then have "unat (toRawSymbol (toSymbolName v) (Num (of_nat (toSymbolPrecision v))))
      = unat v mod 256 + 256 * ?hi"
    by (simp add: unat_toRawSymbol toSymbolPrecision_mod le_value_le_bytes)
  then show ?thesis
    by (simp add: word_unat_eq_iff)
qed

lemma Symbol_fromParts_own:
  assumes "Symbol_precision s \<le> 18" and "symbolNamePattern (Symbol_name s)"
  shows "Symbol_fromParts (Symbol_name s) (Num (of_nat (Symbol_precision s))) = Inr s"
  using assms
  by (simp add: Symbol_fromParts_def Symbol_name_def Symbol_precision_def toRawSymbol_unpack
      new_Symbol_def maxPrecision_def)


lemma digits_exclude:
  assumes "list_all (is_digit 10) ds"
  shows "CHR '' '' \<notin> set ds" and "CHR ''.'' \<notin> set ds"
proof -
  have "\<not> is_digit 10 CHR '' ''" and "\<not> is_digit 10 CHR ''.''"
    by (simp_all add: is_digit_10_code)
  with assms show "CHR '' '' \<notin> set ds" and "CHR ''.'' \<notin> set ds"
    by (auto simp: list_all_iff)
qed

lemma sign_of_excludes: "CHR '' '' \<notin> set (sign_of u)" "CHR ''.'' \<notin> set (sign_of u)"
  by (simp_all add: sign_of_def)

lemma Asset_from_amount:
  assumes sp: "CHR '' '' \<notin> set amount" "CHR '' '' \<notin> set ticker"
  shows "Asset_from (AssetStr (amount @ '' '' @ ticker)) =
     (case Symbol_fromParts ticker
             (Num (of_nat (length (nth_or_empty (split_on CHR ''.'' amount) 1)))) of
        Inl e \<Rightarrow> Inl e
      | Inr sy \<Rightarrow>
          (case Int64_from_string (remove_first CHR ''.'' amount) of
             Inl e \<Rightarrow> Inl e
           | Inr u \<Rightarrow> Inr \<lparr>units = u, symbol = sy\<rparr>))"
proof -
  from sp have "split_on CHR '' '' (amount @ '' '' @ ticker) = [amount, ticker]"
    by (simp add: split_on_two)
  then show ?thesis
    by (simp add: Let_def)
qed

text \<open>
  Claim C5. For every signed 64-bit integer \<open>u\<close> and every valid symbol \<open>s\<close> (a precision
  of at most 18, a name of one to seven letters A-Z), \<^verbatim>\<open>Asset.from\<close> of the string of
  the asset \<open>(u, s)\<close> returns an asset with the units \<open>u\<close> and the symbol \<open>s\<close>, so with
  the same packed value: negative units, units that need zeros in front and the precision
  \<open>0\<close> are all among them.
\<close>

theorem Asset_roundtrip:
  assumes prec: "Symbol_precision s \<le> 18" and name: "symbolNamePattern (Symbol_name s)"
  shows "Asset_from (AssetStr (Asset_toString \<lparr>units = u, symbol = s\<rparr>)) = Inr \<lparr>units = u, symbol = s\<rparr>"
proof -
  let ?p = "Symbol_precision s"
  let ?pd = "padded_digits ?p u"
  let ?ip = "take (length ?pd - ?p) ?pd"
  let ?fp = "drop (length ?pd - ?p) ?pd"
  let ?amount = "sign_of u @ ?ip @ (if 0 < ?p then ''.'' @ ?fp else [])"
  have pd: "list_all (is_digit 10) ?pd" by (rule padded_digits_are_digits)
  then have ip: "list_all (is_digit 10) ?ip" and fp: "list_all (is_digit 10) ?fp"
    by (auto simp: list_all_iff dest: in_set_takeD in_set_dropD)
  have str: "Asset_toString \<lparr>units = u, symbol = s\<rparr> = ?amount @ '' '' @ Symbol_name s"
    by (simp add: Asset_toString_parts Let_def)
  have "CHR '' '' \<notin> set ?amount"
    using digits_exclude(1) [OF ip] digits_exclude(1) [OF fp] sign_of_excludes(1) [of u]
    by simp
  moreover have "CHR '' '' \<notin> set (Symbol_name s)"
    using name by (rule pattern_excludes)
  ultimately have rd: "Asset_from (AssetStr (?amount @ '' '' @ Symbol_name s)) =
     (case Symbol_fromParts (Symbol_name s)
             (Num (of_nat (length (nth_or_empty (split_on CHR ''.'' ?amount) 1)))) of
        Inl e \<Rightarrow> Inl e
      | Inr sy \<Rightarrow>
          (case Int64_from_string (remove_first CHR ''.'' ?amount) of
             Inl e \<Rightarrow> Inl e
           | Inr u \<Rightarrow> Inr \<lparr>units = u, symbol = sy\<rparr>))"
    by (rule Asset_from_amount)
  have nodot: "CHR ''.'' \<notin> set (sign_of u @ ?ip)" "CHR ''.'' \<notin> set ?fp"
    using digits_exclude(2) [OF ip] digits_exclude(2) [OF fp] sign_of_excludes(2) [of u]
    by simp_all
  have len: "length ?fp = ?p"
    by (simp add: length_padded_digits)
  have stripped: "remove_first CHR ''.'' ?amount = sign_of u @ ?pd"
  proof (cases "0 < ?p")
    case True
    then have "?amount = (sign_of u @ ?ip) @ CHR ''.'' # ?fp" by simp
    moreover have "remove_first CHR ''.'' ((sign_of u @ ?ip) @ CHR ''.'' # ?fp) = (sign_of u @ ?ip) @ ?fp"
      using nodot(1) by (rule remove_first_append)
    ultimately have "remove_first CHR ''.'' ?amount = (sign_of u @ ?ip) @ ?fp"
      by (simp only:)
    then show ?thesis by simp
  next
    case False
    then have "?amount = sign_of u @ ?pd" by simp
    moreover have "CHR ''.'' \<notin> set (sign_of u @ ?pd)"
      using digits_exclude(2) [OF pd] sign_of_excludes(2) [of u] by simp
    then have "remove_first CHR ''.'' (sign_of u @ ?pd) = sign_of u @ ?pd"
      by (rule remove_first_absent)
    ultimately show ?thesis by (simp only:)
  qed
  have count: "length (nth_or_empty (split_on CHR ''.'' ?amount) 1) = ?p"
  proof (cases "0 < ?p")
    case True
    then have "?amount = (sign_of u @ ?ip) @ CHR ''.'' # ?fp" by simp
    moreover have "split_on CHR ''.'' ((sign_of u @ ?ip) @ CHR ''.'' # ?fp) = [sign_of u @ ?ip, ?fp]"
      using nodot by (rule split_on_two)
    ultimately have "split_on CHR ''.'' ?amount = [sign_of u @ ?ip, ?fp]"
      by (simp only:)
    then show ?thesis by (simp add: nth_or_empty_def length_padded_digits)
  next
    case False
    then have "?amount = sign_of u @ ?pd" by simp
    moreover have "CHR ''.'' \<notin> set (sign_of u @ ?pd)"
      using digits_exclude(2) [OF pd] sign_of_excludes(2) [of u] by simp
    then have "split_on CHR ''.'' (sign_of u @ ?pd) = [sign_of u @ ?pd]"
      by (rule split_on_no_sep)
    ultimately have "split_on CHR ''.'' ?amount = [?amount]"
      by (simp only:)
    with False show ?thesis by (simp add: nth_or_empty_def)
  qed
  show ?thesis
    unfolding str rd count stripped
    by (simp add: Symbol_fromParts_own [OF prec name] Int64_from_string_padded)
qed

theorem Asset_roundtrip_witness:
  "Symbol_precision \<lparr>sym_value = 1397703940\<rparr> \<le> 18
   \<and> symbolNamePattern (Symbol_name \<lparr>sym_value = 1397703940\<rparr>)
   \<and> Asset_toString \<lparr>units = - 5, symbol = \<lparr>sym_value = 1397703940\<rparr>\<rparr> = ''-0.0005 EOS''
   \<and> Asset_from (AssetStr ''-0.0005 EOS'') = Inr \<lparr>units = - 5, symbol = \<lparr>sym_value = 1397703940\<rparr>\<rparr>"
proof -
  have v: "Symbol_precision \<lparr>sym_value = 1397703940\<rparr> \<le> 18"
    "symbolNamePattern (Symbol_name \<lparr>sym_value = 1397703940\<rparr>)"
    by (simp_all add: Symbol_EOS_4 symbolNamePattern_def)
  have r: "Asset_toString \<lparr>units = - 5, symbol = \<lparr>sym_value = 1397703940\<rparr>\<rparr> = ''-0.0005 EOS''"
    by (simp add: Asset_toString_parts Let_def Symbol_EOS_4 padded_digits_def magnitude_digits_def
        sign_of_def digits_of_small digit_char_def replicate_numeral)
  from Asset_roundtrip [OF v, of "- 5"] v r show ?thesis
    by (simp del: Asset_from.simps)
qed


section \<open>Reading an asset string\<close>

lemma split_on_not_Nil [simp]: "split_on c xs \<noteq> []"
  by (induction xs) (auto split: list.splits)



lemma Int64_from_int_value:
  assumes "Int64_from_int v = Inr u"
  shows "sint u = v"
proof -
  from assms have r: "- (2 ^ 63) \<le> v" "v < 2 ^ 63" and u: "u = word_of_int v"
    by (auto simp: Int64_from_int_def split: if_splits)
  from r have "signed_take_bit 63 v = v"
    by (simp add: signed_take_bit_int_eq_self)
  with u show ?thesis
    by (simp add: sint_sbintrunc')
qed

lemma Int64_from_string_value:
  assumes "Int64_from_string str = Inr u"
  shows "sint u = (if take 1 str = ''-'' then - int (digits_value 10 (drop 1 str))
                   else int (digits_value 10 str))"
  using assms
  by (auto simp: Int64_from_string_def Let_def dest!: Int64_from_int_value split: if_splits)

lemma Symbol_fromParts_precision:
  assumes "Symbol_fromParts ticker (Num (of_nat k)) = Inr sy" and "k < 256"
  shows "Symbol_precision sy = k \<and> k \<le> 18"
  using assms
  by (auto simp: Symbol_fromParts_byte Symbol_precision_def toSymbolPrecision_toRawSymbol
      split: if_splits)







section \<open>Equality of assets\<close>

text \<open>
  Claim C8. \<^verbatim>\<open>equals\<close> passes \<open>other\<close> through \<^verbatim>\<open>Asset.from\<close> (whose error it lets
  through) and is true exactly when the packed values of the two symbols are equal and
  the units are equal. So assets that differ in the precision, in the name or in the
  units are not equal; an asset given as an object is equal when it is the same pair of
  units and symbol.
\<close>

theorem Asset_equals_both:
  "(Asset_from other = Inl e \<longrightarrow> Asset_equals this other = Inl e)
   \<and> (Asset_from other = Inr that \<longrightarrow>
        Asset_equals this other =
          Inr (sym_value (symbol this) = sym_value (symbol that) \<and> units this = units that)
        \<and> (Symbol_precision (symbol this) \<noteq> Symbol_precision (symbol that) \<longrightarrow>
              Asset_equals this other = Inr False)
        \<and> (Symbol_name (symbol this) \<noteq> Symbol_name (symbol that) \<longrightarrow>
              Asset_equals this other = Inr False)
        \<and> (units this \<noteq> units that \<longrightarrow> Asset_equals this other = Inr False))
   \<and> Asset_equals this (AssetObj that) = Inr (this = that)"
proof -
  have "this = that \<longleftrightarrow> sym_value (symbol this) = sym_value (symbol that) \<and> units this = units that"
    by (cases this, cases that) auto
  then show ?thesis
    by (auto simp: Asset_equals_def Symbol_precision_def Symbol_name_def)
qed

text \<open>
  The example of the specification: the assets of \<^verbatim>\<open>1.0 EOS\<close> and \<^verbatim>\<open>1.00 EOS\<close> have the
  same numeric value and are not equal; nor are ten units at precision 1 and ten units
  at precision 2.
\<close>

lemma Asset_from_examples:
  "Asset_from (AssetStr ''1.0 EOS'') = Inr \<lparr>units = 10, symbol = \<lparr>sym_value = 1397703937\<rparr>\<rparr>"
  "Asset_from (AssetStr ''1.00 EOS'') = Inr \<lparr>units = 100, symbol = \<lparr>sym_value = 1397703938\<rparr>\<rparr>"
  "Asset_from (AssetStr ''0.10 EOS'') = Inr \<lparr>units = 10, symbol = \<lparr>sym_value = 1397703938\<rparr>\<rparr>"
proof -
  have raw: "toRawSymbol ''EOS'' (Num 1) = 1397703937" "toRawSymbol ''EOS'' (Num 2) = 1397703938"
    by (simp_all add: toRawSymbol_def toRawSymbolCode_def UInt64_from_BN_def truncate_rat_def
        BN_from_le_bytes)
  have sy: "Symbol_fromParts ''EOS'' (Num 1) = Inr \<lparr>sym_value = 1397703937\<rparr>"
    "Symbol_fromParts ''EOS'' (Num 2) = Inr \<lparr>sym_value = 1397703938\<rparr>"
    using Symbol_fromParts_byte [of 1 "''EOS''"] Symbol_fromParts_byte [of 2 "''EOS''"]
    by (simp_all add: raw ticker_of_def symbolNamePattern_def)
  have u: "Int64_from_string ''10'' = Inr 10" "Int64_from_string ''100'' = Inr 100"
    "Int64_from_string ''010'' = Inr 10"
    by (simp_all add: Int64_from_string_def is_digit_10_code digits_value_def digit_value_def
        Int64_from_int_def)
  show "Asset_from (AssetStr ''1.0 EOS'') = Inr \<lparr>units = 10, symbol = \<lparr>sym_value = 1397703937\<rparr>\<rparr>"
    "Asset_from (AssetStr ''1.00 EOS'') = Inr \<lparr>units = 100, symbol = \<lparr>sym_value = 1397703938\<rparr>\<rparr>"
    "Asset_from (AssetStr ''0.10 EOS'') = Inr \<lparr>units = 10, symbol = \<lparr>sym_value = 1397703938\<rparr>\<rparr>"
    by (simp_all add: Let_def nth_or_empty_def sy u)
qed

theorem Asset_equals_both_witness:
  "Asset_from (AssetStr ''1.0 EOS'') = Inr \<lparr>units = 10, symbol = \<lparr>sym_value = 1397703937\<rparr>\<rparr>
   \<and> Asset_from (AssetStr ''1.00 EOS'') = Inr \<lparr>units = 100, symbol = \<lparr>sym_value = 1397703938\<rparr>\<rparr>
   \<and> Asset_equals \<lparr>units = 10, symbol = \<lparr>sym_value = 1397703937\<rparr>\<rparr> (AssetStr ''1.00 EOS'') = Inr False
   \<and> Asset_equals \<lparr>units = 10, symbol = \<lparr>sym_value = 1397703937\<rparr>\<rparr> (AssetStr ''0.10 EOS'') = Inr False
   \<and> Asset_equals \<lparr>units = 10, symbol = \<lparr>sym_value = 1397703937\<rparr>\<rparr> (AssetStr ''1.0 EOS'') = Inr True
   \<and> Asset_equals \<lparr>units = 10, symbol = \<lparr>sym_value = 1397703937\<rparr>\<rparr> (AssetStr ''1.0EOS'') = Inl InvalidAssetString"
proof -
  let ?a = "\<lparr>units = 10, symbol = \<lparr>sym_value = 1397703937\<rparr>\<rparr>"
  have bad: "Asset_from (AssetStr ''1.0EOS'') = Inl InvalidAssetString"
    by (simp add: Let_def)
  from Asset_equals_both [of "AssetStr ''1.00 EOS''" _ ?a "\<lparr>units = 100, symbol = \<lparr>sym_value = 1397703938\<rparr>\<rparr>"]
    Asset_equals_both [of "AssetStr ''0.10 EOS''" _ ?a "\<lparr>units = 10, symbol = \<lparr>sym_value = 1397703938\<rparr>\<rparr>"]
    Asset_equals_both [of "AssetStr ''1.0 EOS''" _ ?a ?a]
    Asset_equals_both [of "AssetStr ''1.0EOS''" InvalidAssetString ?a]
    Asset_from_examples bad
  show ?thesis
    by (simp del: Asset_from.simps)
qed


section \<open>The string of a symbol code\<close>

text \<open>
  Claim C9 says that zero bytes give no characters, the all-zero value and zero bytes
  inside the ticker among them. \<^verbatim>\<open>charsToSymbolName\<close> maps every byte it is given and
  filters none: the zero integer is the one byte \<open>0\<close> and gives the string of one NUL
  character, and the integer \<^verbatim>\<open>0x410041\<close> gives three characters, the middle one NUL.
\<close>

theorem SymbolCode_toString_zero_bytes:
  "SymbolCode_toString \<lparr>code_value = 0\<rparr> = [CHR 0x00]
   \<and> SymbolCode_toString \<lparr>code_value = 0x410041\<rparr> = [CHR ''A'', CHR 0x00, CHR ''A'']"
  by (simp add: SymbolCode_toString_def BN_toArray_be_def charsToSymbolName_def le_bytes_numeral)

lemma le_bytes_nth: "i < length (le_bytes n) \<Longrightarrow> le_bytes n ! i = (n div 256 ^ i) mod 256"
proof (induction n arbitrary: i rule: le_bytes.induct)
  case (1 n)
  show ?case
  proof (cases "n = 0")
    case True
    with "1.prems" show ?thesis by simp
  next
    case False
    show ?thesis
    proof (cases i)
      case 0
      with False show ?thesis by (simp add: le_bytes_pos)
    next
      case (Suc j)
      with False "1.prems" have "j < length (le_bytes (n div 256))"
        by (simp add: le_bytes_pos)
      with "1.IH" False have "le_bytes (n div 256) ! j = (n div 256 div 256 ^ j) mod 256"
        by simp
      with False Suc show ?thesis
        by (simp add: le_bytes_pos div_mult2_eq)
    qed
  qed
qed

lemma SymbolCode_toString_bytes:
  "SymbolCode_toString c =
     map char_of (if code_value c = 0 then [0] else le_bytes (unat (code_value c)))"
  by (simp add: SymbolCode_toString_def BN_toArray_be_def charsToSymbolName_def rev_map
      unsigned_eq_0_iff)

lemma SymbolCode_from_string_value:
  "unat (code_value (SymbolCode_from (SymbolCodeStr t))) = le_value (toRawSymbolCode t)"
proof -
  have "le_value (toRawSymbolCode t) < 2 ^ 64"
    using le_value_codes_bound [of t] by simp
  then show ?thesis
    by (simp add: UInt64_from_BN_def unsigned_of_nat take_bit_nat_eq_self)
qed

lemma SymbolCode_roundtrip:
  assumes "t \<noteq> []" and "CHR 0x00 \<notin> set (take 7 t)"
  shows "SymbolCode_toString (SymbolCode_from (SymbolCodeStr t)) = take 7 t"
proof -
  let ?codes = "toRawSymbolCode t"
  from assms(2) have z: "0 \<notin> set ?codes"
    by (auto simp: toRawSymbolCode_take of_char_eq_iff [of _ "CHR 0x00", simplified])
  then have "le_bytes (le_value ?codes) = ?codes"
    by (simp add: le_bytes_le_value toRawSymbolCode_bytes strip_zeros_id)
  moreover from assms(1) have "?codes \<noteq> []"
    by (simp add: toRawSymbolCode_take)
  ultimately have "le_value ?codes \<noteq> 0"
    by (metis le_bytes_0)
  then have nz: "code_value (SymbolCode_from (SymbolCodeStr t)) \<noteq> 0"
    using SymbolCode_from_string_value [of t] by (metis unsigned_0)
  have "SymbolCode_toString (SymbolCode_from (SymbolCodeStr t)) = map char_of ?codes"
    unfolding SymbolCode_toString_bytes using nz
    by (simp only: SymbolCode_from_string_value \<open>le_bytes (le_value ?codes) = ?codes\<close> if_False)
  then show ?thesis
    by (simp add: toRawSymbolCode_take comp_def)
qed

text \<open>
  Claim C9, amended. \<^verbatim>\<open>toString\<close> gives one character for every byte of the integer,
  from the lowest byte up to the highest non-zero byte and in that order (for the zero
  integer: one byte), a zero byte among them as a NUL character; only the zero bytes
  above the highest non-zero byte give no character. For a ticker of 8-bit characters,
  at least one, with no NUL among its first seven characters, the string of
  \<^verbatim>\<open>SymbolCode.from\<close> of the ticker is these first seven characters.
\<close>

theorem SymbolCode_toString_every_byte:
  "length (SymbolCode_toString c) = max 1 (length (le_bytes (unat (code_value c))))
   \<and> (\<forall>i < length (SymbolCode_toString c).
         SymbolCode_toString c ! i = char_of ((unat (code_value c) div 256 ^ i) mod 256))
   \<and> (t \<noteq> [] \<and> CHR 0x00 \<notin> set (take 7 t) \<longrightarrow>
         SymbolCode_toString (SymbolCode_from (SymbolCodeStr t)) = take 7 t)"
proof (cases "code_value c = 0")
  case True
  then show ?thesis
    using SymbolCode_roundtrip [of t] by (simp add: SymbolCode_toString_bytes)
next
  case False
  then have "unat (code_value c) \<noteq> 0"
    by (simp add: unsigned_eq_0_iff)
  then have "le_bytes (unat (code_value c)) \<noteq> []"
    by (simp add: le_bytes_pos)
  then have "max 1 (length (le_bytes (unat (code_value c)))) = length (le_bytes (unat (code_value c)))"
    by (simp add: Suc_leI max_def)
  with False show ?thesis
    using SymbolCode_roundtrip [of t] by (simp add: SymbolCode_toString_bytes le_bytes_nth)
qed

theorem SymbolCode_toString_every_byte_witness:
  "SymbolCode_toString \<lparr>code_value = 0x410041\<rparr> ! 1 = CHR 0x00
   \<and> length (SymbolCode_toString \<lparr>code_value = 0x410041\<rparr>) = 3
   \<and> code_value (SymbolCode_from (SymbolCodeStr ''EOS'')) = 5459781
   \<and> SymbolCode_toString \<lparr>code_value = 5459781\<rparr> = ''EOS''"
proof -
  have l: "length (le_bytes (unat (0x410041 :: 64 word))) = 3"
    by (simp add: le_bytes_numeral)
  have v: "SymbolCode_from (SymbolCodeStr ''EOS'') = \<lparr>code_value = 5459781\<rparr>"
    by (simp add: toRawSymbolCode_def UInt64_from_BN_def BN_from_le_bytes)
  from SymbolCode_toString_every_byte [of "\<lparr>code_value = 0x410041\<rparr>" "''EOS''"] l v
  show ?thesis
    by (simp del: SymbolCode_from.simps)
qed


section \<open>The code of a symbol\<close>

lemma Symbol_code_store:
  assumes "r < length h"
  shows "Symbol_code r h = (length h, h @ [h ! r div 256])"
  using assms by (simp add: Symbol_code_def BN_clone_def BN_iushrn_def nth_append)

lemma UInt64_shift: "UInt64_from_BN (unat (v :: 64 word) div 256) = drop_bit 8 v"
proof -
  have "unat (drop_bit 8 v) = drop_bit 8 (unat v)"
    by (simp only: unat_drop_bit_eq)
  then have "unat (drop_bit 8 v) = unat v div 256"
    by (simp add: drop_bit_eq_div)
  then have "word_of_nat (unat v div 256) = (word_of_nat (unat (drop_bit 8 v)) :: 64 word)"
    by (simp only:)
  then have "word_of_nat (unat v div 256) = drop_bit 8 v"
    by (simp only: of_nat_unat ucast_id)
  then show ?thesis by (simp add: UInt64_from_BN_def)
qed

text \<open>
  Claim C10. For a symbol whose packed value \<open>v\<close> is the number \<open>r\<close> of the store, the
  getter \<^verbatim>\<open>code\<close> returns a symbol code whose number is a new object holding \<open>v\<close> shifted
  right by 8 bits; no number that was in the store before has changed, the one of the
  symbol among them, because \<^verbatim>\<open>iushrn\<close> is called on the clone. So the symbol is still
  the same, and reading \<^verbatim>\<open>code\<close> again gives the same symbol code and leaves the same
  symbol, with the same precision and name.
\<close>

theorem Symbol_code_on_clone:
  "r < length h \<and> h ! r = unat v \<longrightarrow>
     (case Symbol_code r h of (c, h') \<Rightarrow>
        c = length h
        \<and> (\<forall>r' < length h. h' ! r' = h ! r')
        \<and> Symbol_at h' r = Symbol_at h r
        \<and> Symbol_at h r = \<lparr>sym_value = v\<rparr>
        \<and> SymbolCode_at h' c = \<lparr>code_value = drop_bit 8 v\<rparr>
        \<and> (case Symbol_code r h' of (c2, h2) \<Rightarrow>
              SymbolCode_at h2 c2 = SymbolCode_at h' c
              \<and> Symbol_at h2 r = Symbol_at h r
              \<and> Symbol_precision (Symbol_at h2 r) = Symbol_precision (Symbol_at h r)
              \<and> Symbol_name (Symbol_at h2 r) = Symbol_name (Symbol_at h r)))"
proof (intro impI, elim conjE)
  assume r: "r < length h" and v: "h ! r = unat v"
  let ?h1 = "h @ [h ! r div 256]"
  have c1: "Symbol_code r h = (length h, ?h1)"
    using r by (rule Symbol_code_store)
  have r1: "r < length ?h1" using r by simp
  have same: "?h1 ! r = h ! r" using r by (simp add: nth_append)
  have c2: "Symbol_code r ?h1 = (length ?h1, ?h1 @ [h ! r div 256])"
    using Symbol_code_store [OF r1] same by simp
  have frame: "\<forall>r' < length h. ?h1 ! r' = h ! r'"
    by (simp add: nth_append)
  have s1: "Symbol_at ?h1 r = Symbol_at h r"
    using same by (simp add: Symbol_at_def)
  have s2: "Symbol_at (?h1 @ [h ! r div 256]) r = Symbol_at h r"
    using r by (simp add: Symbol_at_def nth_append)
  have sv: "Symbol_at h r = \<lparr>sym_value = v\<rparr>"
    using v by (simp add: Symbol_at_def UInt64_from_BN_def)
  have code1: "SymbolCode_at ?h1 (length h) = \<lparr>code_value = drop_bit 8 v\<rparr>"
    using v by (simp add: SymbolCode_at_def UInt64_shift)
  have code2: "SymbolCode_at (?h1 @ [h ! r div 256]) (length ?h1) = SymbolCode_at ?h1 (length h)"
    by (simp add: SymbolCode_at_def nth_append)
  show "case Symbol_code r h of (c, h') \<Rightarrow>
        c = length h
        \<and> (\<forall>r' < length h. h' ! r' = h ! r')
        \<and> Symbol_at h' r = Symbol_at h r
        \<and> Symbol_at h r = \<lparr>sym_value = v\<rparr>
        \<and> SymbolCode_at h' c = \<lparr>code_value = drop_bit 8 v\<rparr>
        \<and> (case Symbol_code r h' of (c2, h2) \<Rightarrow>
              SymbolCode_at h2 c2 = SymbolCode_at h' c
              \<and> Symbol_at h2 r = Symbol_at h r
              \<and> Symbol_precision (Symbol_at h2 r) = Symbol_precision (Symbol_at h r)
              \<and> Symbol_name (Symbol_at h2 r) = Symbol_name (Symbol_at h r))"
    unfolding c1 prod.case c2 using frame s1 s2 sv code1 code2 by simp
qed

text \<open>
  The example of the specification: the code of \<^verbatim>\<open>Symbol.fromParts("EOS", 4)\<close> has the
  string \<^verbatim>\<open>EOS\<close>.
\<close>

theorem Symbol_code_on_clone_witness:
  "Symbol_code 0 [1397703940] = (1, [1397703940, 5459781])
   \<and> Symbol_at [1397703940, 5459781] 0 = \<lparr>sym_value = 1397703940\<rparr>
   \<and> SymbolCode_at [1397703940, 5459781] 1 = \<lparr>code_value = drop_bit 8 1397703940\<rparr>
   \<and> SymbolCode_toString (SymbolCode_at [1397703940, 5459781] 1) = ''EOS''
   \<and> Symbol_fromParts ''EOS'' (Num 4) = Inr (Symbol_at [1397703940] 0)"
proof -
  have c: "Symbol_code 0 [1397703940] = (1, [1397703940, 5459781])"
    by (simp add: Symbol_code_def BN_clone_def BN_iushrn_def)
  have s: "SymbolCode_toString (SymbolCode_at [1397703940, 5459781] 1) = ''EOS''"
    by (simp add: SymbolCode_toString_bytes SymbolCode_at_def UInt64_from_BN_def le_bytes_numeral)
  have f: "Symbol_fromParts ''EOS'' (Num 4) = Inr (Symbol_at [1397703940] 0)"
    using Symbol_fromParts_byte [of 4 "''EOS''"]
    by (simp add: toRawSymbol_EOS_4 ticker_of_def symbolNamePattern_def Symbol_at_def UInt64_from_BN_def)
  from Symbol_code_on_clone [of 0 "[1397703940]" 1397703940] c s f
  show ?thesis
    by (simp add: Symbol_at_def UInt64_from_BN_def)
qed


section \<open>From a floating point value to units\<close>

text \<open>
  The guard of \<^verbatim>\<open>convertFloat\<close>: the precision-loss error is raised exactly when the
  scaled value itself, with its sign, is at least \<open>2 ^ 53\<close>.
\<close>

lemma Int64_from_number_error: "Int64_from_number rv \<noteq> Inl ConversionLoosesPrecision"
  by (cases rv) (simp_all add: Int64_from_int_def)

lemma convertFloat_guard:
  "convertFloat s float = Inl ConversionLoosesPrecision \<longleftrightarrow>
     number_ge (number_times (Math_pow10 (Symbol_precision s)) float) (Num (2 ^ 53))"
  by (simp add: convertFloat_def Let_def Int64_from_number_error del: number_times.simps)

lemma Math_pow10_0: "Math_pow10 0 = Num 1"
  by (simp add: Math_pow10_def round_double_def binade_def pow2_def round_half_even_def
      bit_length_numeral Let_def)

lemma times_one_exact: "number_times (Num 1) (Num (- 9007199254740992)) = Num (- 9007199254740992)"
  by (simp add: round_double_def binade_def pow2_def round_half_even_def
      bit_length_numeral Let_def)

lemma times_one_exact_pos: "number_times (Num 1) (Num 9007199254740992) = Num 9007199254740992"
  by (simp add: round_double_def binade_def pow2_def round_half_even_def
      bit_length_numeral Let_def)

text \<open>The example of the specification: \<open>1.25\<close> at precision 4 is 12500 units.\<close>

lemma convertFloat_example:
  "convertFloat \<lparr>sym_value = 1397703940\<rparr> (Num (5 / 4)) = Inr 12500"
  by (simp add: convertFloat_def Symbol_EOS_4 Math_pow10_def round_double_def binade_def pow2_def
      round_half_even_def bit_length_numeral Let_def Int64_from_int_def truncate_rat_def)


text \<open>
  Claim C1 says that the precision-loss error is raised whenever the magnitude of the
  scaled value reaches \<open>2 ^ 53\<close>, negative values among them. The guard compares the
  scaled value and not its magnitude: for the symbol \<^verbatim>\<open>0,EOS\<close> and the value \<open>- 2 ^ 53\<close>
  the scaled value is \<open>- 2 ^ 53\<close>, of magnitude \<open>2 ^ 53\<close>, and neither \<^verbatim>\<open>convertFloat\<close>
  nor the setter \<^verbatim>\<open>value\<close> of an asset raises the precision-loss error, which
  \<open>2 ^ 53\<close> itself does raise.
\<close>

theorem convertFloat_negative_not_guarded:
  "Symbol_fromParts ''EOS'' (Num 0) = Inr \<lparr>sym_value = 1397703936\<rparr>
   \<and> number_times (Math_pow10 (Symbol_precision \<lparr>sym_value = 1397703936\<rparr>)) (Num (- 9007199254740992))
       = Num (- 9007199254740992)
   \<and> (2 :: rat) ^ 53 \<le> \<bar>- 9007199254740992\<bar>
   \<and> convertFloat \<lparr>sym_value = 1397703936\<rparr> (Num (- 9007199254740992)) \<noteq> Inl ConversionLoosesPrecision
   \<and> Asset_set_value \<lparr>units = 0, symbol = \<lparr>sym_value = 1397703936\<rparr>\<rparr> (Num (- 9007199254740992))
       \<noteq> Inl ConversionLoosesPrecision
   \<and> convertFloat \<lparr>sym_value = 1397703936\<rparr> (Num 9007199254740992) = Inl ConversionLoosesPrecision"
proof -
  have raw: "toRawSymbol ''EOS'' (Num 0) = 1397703936"
    by (simp add: toRawSymbol_def toRawSymbolCode_def UInt64_from_BN_def truncate_rat_def
        BN_from_le_bytes)
  have sy: "Symbol_fromParts ''EOS'' (Num 0) = Inr \<lparr>sym_value = 1397703936\<rparr>"
    using Symbol_fromParts_byte [of 0 "''EOS''"]
    by (simp add: raw ticker_of_def symbolNamePattern_def)
  have neg: "convertFloat \<lparr>sym_value = 1397703936\<rparr> (Num (- 9007199254740992))
      = Inr (word_of_int (- 9007199254740992))"
    by (simp add: convertFloat_def Symbol_EOS_0 Math_pow10_0 times_one_exact Int64_from_int_def
        truncate_rat_def del: number_times.simps)
  have pos: "convertFloat \<lparr>sym_value = 1397703936\<rparr> (Num 9007199254740992) = Inl ConversionLoosesPrecision"
    by (simp add: convertFloat_def Symbol_EOS_0 Math_pow10_0 times_one_exact_pos del: number_times.simps)
  show ?thesis
    using sy neg pos
    by (simp add: Asset_set_value_def Symbol_EOS_0 Math_pow10_0 times_one_exact del: number_times.simps)
qed



end
